theory Spec2Isabelle
  imports Main
begin

section \<open>Data model (app/models.py)\<close>

text \<open>
  A \<open>datetime\<close> is a number of microseconds on the UTC time line, the resolution of
  Python's \<open>datetime\<close>; \<open>timedelta(minutes=m)\<close> is \<open>m * 60000000\<close> of them.
  Every operation reads the clock (\<open>datetime.utcnow()\<close>); the reading is passed in as
  the argument \<open>now\<close>, one instant per call of an operation.
\<close>

type_synonym datetime = int

definition timedelta_minutes :: "int \<Rightarrow> int" where
  "timedelta_minutes m = m * 60000000"

record WishImage =
  image_id :: int
  image_wish_id :: int
  path :: string
  image_created_at :: datetime

record Wish =
  wish_id :: int
  slug :: string
  title :: "string option"
  message :: string
  theme :: string
  expires_at :: "datetime option"
  max_views :: "int option"
  current_views :: int
  is_deleted :: bool
  created_at :: datetime
  deleted_at :: "datetime option"
  ip_hash :: string
  celebration_items :: "string list option"
  images :: "WishImage list"

text \<open>The configuration object \<open>settings\<close> (app/config.py) is a parameter.\<close>

record settings =
  BASE_URL :: string
  SOFT_DELETE_GRACE_PERIOD_MINUTES :: int
  CLEANUP_INTERVAL_MINUTES :: int

definition is_expired_by_time :: "Wish \<Rightarrow> datetime \<Rightarrow> bool" where
  "is_expired_by_time w now =
     (case expires_at w of None \<Rightarrow> False | Some e \<Rightarrow> now > e)"

definition is_expired_by_views :: "Wish \<Rightarrow> bool" where
  "is_expired_by_views w =
     (case max_views w of None \<Rightarrow> False | Some m \<Rightarrow> current_views w \<ge> m)"

definition remaining_views :: "Wish \<Rightarrow> int option" where
  "remaining_views w =
     (case max_views w of None \<Rightarrow> None | Some m \<Rightarrow> Some (max 0 (m - current_views w)))"

definition is_expired :: "Wish \<Rightarrow> datetime \<Rightarrow> bool" where
  "is_expired w now = (is_expired_by_time w now \<or> is_expired_by_views w)"

definition soft_delete :: "datetime \<Rightarrow> Wish \<Rightarrow> Wish" where
  "soft_delete now w = w\<lparr>is_deleted := True, deleted_at := Some now\<rparr>"

definition url :: "settings \<Rightarrow> WishImage \<Rightarrow> string" where
  "url st img = BASE_URL st @ ''/media/'' @ path img"

section \<open>Expiry service (app/services/expiry.py)\<close>

datatype ExpiryType = TIME | VIEWS

fun expiry_type_value :: "ExpiryType \<Rightarrow> string" where
  "expiry_type_value TIME = ''time''"
| "expiry_type_value VIEWS = ''views''"

record ExpiryResult =
  res_is_expired :: bool
  res_expiry_type :: "ExpiryType option"

text \<open>
  Modelled from the spec: \<open>check_expiry\<close> of app/services/expiry.py is not among the
  sources; only its callers are. Section 4.1: expired by time iff \<open>expires_at\<close> is set
  and the current time is strictly after it; expired by views iff \<open>max_views\<close> is set
  and \<open>current_views >= max_views\<close>; expired iff either holds, and the reason is
  \<open>time\<close> when both hold.
\<close>

definition check_expiry :: "Wish \<Rightarrow> datetime \<Rightarrow> ExpiryResult" where
  "check_expiry w now =
     (if (case expires_at w of None \<Rightarrow> False | Some e \<Rightarrow> now > e)
      then \<lparr>res_is_expired = True, res_expiry_type = Some TIME\<rparr>
      else if (case max_views w of None \<Rightarrow> False | Some m \<Rightarrow> current_views w \<ge> m)
      then \<lparr>res_is_expired = True, res_expiry_type = Some VIEWS\<rparr>
      else \<lparr>res_is_expired = False, res_expiry_type = None\<rparr>)"

text \<open>
  Modelled from the spec: \<open>should_soft_delete\<close> of app/services/expiry.py is not among
  the sources. Section 4.2, step 4: the state after the increment causes a tombstone
  iff \<open>max_views\<close> is set and \<open>current_views >= max_views\<close>.
\<close>

definition should_soft_delete :: "Wish \<Rightarrow> bool" where
  "should_soft_delete w =
     (case max_views w of None \<Rightarrow> False | Some m \<Rightarrow> current_views w \<ge> m)"

section \<open>The database session\<close>

text \<open>
  The table \<open>wishes\<close> is the list of its rows, each with its images (the relationship
  \<open>Wish.images\<close>, deleted with the row). What an operation returns beside its result is
  the table as persisted when the call is over. A call of the session can raise: the
  faults say which calls do. An update or a delete is written by primary key at
  \<open>commit\<close>; a commit that raises persists nothing.
\<close>

datatype error = HTTPException int string | StoreUnavailable

abbreviation NotFound :: error where
  "NotFound \<equiv> HTTPException 404 ''Wish not found''"

abbreviation Gone :: error where
  "Gone \<equiv> HTTPException 410 ''Wish has expired or already been viewed''"

record store_faults =
  query_fails :: bool
  commit_fails :: bool

definition no_faults :: store_faults where
  "no_faults = \<lparr>query_fails = False, commit_fails = False\<rparr>"

definition query_first :: "store_faults \<Rightarrow> string \<Rightarrow> Wish list \<Rightarrow> error + Wish option" where
  "query_first f s db =
     (if query_fails f then Inl StoreUnavailable else Inr (find (\<lambda>w. slug w = s) db))"

definition commit_wish :: "store_faults \<Rightarrow> Wish \<Rightarrow> Wish list \<Rightarrow> error + Wish list" where
  "commit_wish f w db =
     (if commit_fails f then Inl StoreUnavailable
      else Inr (map (\<lambda>r. if wish_id r = wish_id w then w else r) db))"

section \<open>Routes (app/routes/wishes.py)\<close>

record WishViewResponse =
  resp_title :: "string option"
  resp_message :: string
  resp_theme :: string
  resp_images :: "string list"
  resp_remaining_views :: "int option"

definition view_response :: "settings \<Rightarrow> Wish \<Rightarrow> WishViewResponse" where
  "view_response st w =
     (let image_urls = map (url st) (images w);
          remaining =
            (case max_views w of
               None \<Rightarrow> None
             | Some m \<Rightarrow> if m \<noteq> 0 then Some (m - current_views w) else None)
      in \<lparr>resp_title = title w, resp_message = message w, resp_theme = theme w,
          resp_images = image_urls,
          resp_remaining_views =
            (case remaining of None \<Rightarrow> None | Some r \<Rightarrow> Some (max 0 r))\<rparr>)"

definition view_wish ::
  "settings \<Rightarrow> store_faults \<Rightarrow> datetime \<Rightarrow> string \<Rightarrow> Wish list
     \<Rightarrow> (error + WishViewResponse) \<times> Wish list" where
  "view_wish st f now s db =
     (case query_first f s db of
        Inl e \<Rightarrow> (Inl e, db)
      | Inr None \<Rightarrow> (Inl NotFound, db)
      | Inr (Some wish) \<Rightarrow>
          if is_deleted wish then (Inl Gone, db)
          else if res_is_expired (check_expiry wish now) then
            (case commit_wish f (soft_delete now wish) db of
               Inl e \<Rightarrow> (Inl e, db)
             | Inr db' \<Rightarrow> (Inl Gone, db'))
          else
            (let wish1 = wish\<lparr>current_views := current_views wish + 1\<rparr>;
                 wish2 = (if should_soft_delete wish1 then soft_delete now wish1 else wish1)
             in case commit_wish f wish2 db of
                  Inl e \<Rightarrow> (Inl e, db)
                | Inr db' \<Rightarrow> (Inr (view_response st wish2), db')))"

definition delete_wish ::
  "store_faults \<Rightarrow> datetime \<Rightarrow> string \<Rightarrow> Wish list \<Rightarrow> (error + unit) \<times> Wish list" where
  "delete_wish f now s db =
     (case query_first f s db of
        Inl e \<Rightarrow> (Inl e, db)
      | Inr None \<Rightarrow> (Inl NotFound, db)
      | Inr (Some wish) \<Rightarrow>
          if is_deleted wish then (Inl NotFound, db)
          else
            (case commit_wish f (soft_delete now wish) db of
               Inl e \<Rightarrow> (Inl e, db)
             | Inr db' \<Rightarrow> (Inr (), db')))"

text \<open>The two shapes of the dictionary that \<open>get_wish_status\<close> returns.\<close>

datatype status_payload =
  StatusDeleted bool string "datetime option" string
    \<comment> \<open>exists, status, deleted_at, message\<close>
| StatusLive bool string "string option" "int option" "datetime option"
    \<comment> \<open>exists, status, expiry_type, remaining_views, expires_at\<close>

definition get_wish_status ::
  "store_faults \<Rightarrow> datetime \<Rightarrow> string \<Rightarrow> Wish list \<Rightarrow> (error + status_payload) \<times> Wish list" where
  "get_wish_status f now s db =
     (case query_first f s db of
        Inl e \<Rightarrow> (Inl e, db)
      | Inr None \<Rightarrow> (Inl NotFound, db)
      | Inr (Some wish) \<Rightarrow>
          if is_deleted wish then
            (Inr (StatusDeleted True ''deleted'' (deleted_at wish)
                    ''Wish has expired or been deleted''), db)
          else
            (let expiry_result = check_expiry wish now
             in (Inr (StatusLive True
                        (if res_is_expired expiry_result then ''expired'' else ''active'')
                        (if res_is_expired expiry_result
                         then map_option expiry_type_value (res_expiry_type expiry_result)
                         else None)
                        (remaining_views wish)
                        (expires_at wish)), db)))"

text \<open>
  The request body of \<open>create_wish\<close> (app/schemas.py, \<open>WishCreate\<close>) with the
  constraints of its fields and of \<open>validate_expiry\<close>, and the row that
  \<open>create_wish\<close> adds for it: the columns it does not pass take their defaults.
\<close>

record WishCreate =
  wc_title :: "string option"
  wc_message :: string
  wc_theme :: string
  wc_expires_at :: "datetime option"
  wc_max_views :: "int option"

definition valid_WishCreate :: "WishCreate \<Rightarrow> bool" where
  "valid_WishCreate d =
     ((case wc_title d of None \<Rightarrow> True | Some t \<Rightarrow> length t \<le> 255)
      \<and> 1 \<le> length (wc_message d) \<and> length (wc_message d) \<le> 5000
      \<and> length (wc_theme d) \<le> 50
      \<and> (case wc_max_views d of None \<Rightarrow> True | Some m \<Rightarrow> 1 \<le> m \<and> m \<le> 1000)
      \<and> \<not> (wc_expires_at d = None \<and> wc_max_views d = None))"

definition new_wish :: "int \<Rightarrow> string \<Rightarrow> string \<Rightarrow> datetime \<Rightarrow> WishCreate \<Rightarrow> Wish" where
  "new_wish i s ip now d =
     \<lparr>wish_id = i, slug = s, title = wc_title d, message = wc_message d,
      theme = wc_theme d, expires_at = wc_expires_at d, max_views = wc_max_views d,
      current_views = 0, is_deleted = False, created_at = now, deleted_at = None,
      ip_hash = ip, celebration_items = None, images = []\<rparr>"

section \<open>Cleanup service (app/services/cleanup.py)\<close>

text \<open>
  The file store and the per-wish failures of a sweep, by wish id: whether the upload
  directory of the wish exists, whether \<open>shutil.rmtree\<close> on it raises, and whether
  \<open>db.delete\<close> of the row raises.
\<close>

record sweep_env =
  dir_exists :: "int \<Rightarrow> bool"
  rmtree_fails :: "int \<Rightarrow> bool"
  delete_fails :: "int \<Rightarrow> bool"

record sweep_acc =
  wishes_deleted :: int
  images_deleted :: int
  errors_count :: int
  pending_deletes :: "int list"
  removed_dirs :: "int list"

definition sweep_init :: sweep_acc where
  "sweep_init = \<lparr>wishes_deleted = 0, images_deleted = 0, errors_count = 0,
                  pending_deletes = [], removed_dirs = []\<rparr>"

definition sweep_files :: "sweep_env \<Rightarrow> sweep_acc \<Rightarrow> Wish \<Rightarrow> sweep_acc" where
  "sweep_files env acc w =
     (if dir_exists env (wish_id w) then
        (if rmtree_fails env (wish_id w)
         then acc\<lparr>errors_count := errors_count acc + 1\<rparr>
         else acc\<lparr>removed_dirs := removed_dirs acc @ [wish_id w]\<rparr>)
      else acc)"

definition sweep_step :: "sweep_env \<Rightarrow> sweep_acc \<Rightarrow> Wish \<Rightarrow> sweep_acc" where
  "sweep_step env acc w =
     (let acc1 = sweep_files env acc w
      in if delete_fails env (wish_id w)
         then acc1\<lparr>errors_count := errors_count acc1 + 1\<rparr>
         else acc1\<lparr>pending_deletes := pending_deletes acc1 @ [wish_id w],
                   wishes_deleted := wishes_deleted acc1 + 1,
                   images_deleted := images_deleted acc1 + int (length (images w))\<rparr>)"

definition purge_candidate :: "datetime \<Rightarrow> Wish \<Rightarrow> bool" where
  "purge_candidate cutoff_time w =
     (is_deleted w \<and> (case deleted_at w of None \<Rightarrow> False | Some d \<Rightarrow> d < cutoff_time))"

definition cleanup_expired_wishes ::
  "settings \<Rightarrow> store_faults \<Rightarrow> sweep_env \<Rightarrow> datetime \<Rightarrow> Wish list
     \<Rightarrow> (error + int \<times> int \<times> int) \<times> Wish list \<times> int list" where
  "cleanup_expired_wishes st f env now db =
     (let grace_period = timedelta_minutes (SOFT_DELETE_GRACE_PERIOD_MINUTES st);
          cutoff_time = now - grace_period
      in if query_fails f then (Inl StoreUnavailable, db, [])
         else
           (let wishes_to_delete = filter (purge_candidate cutoff_time) db;
                acc = foldl (sweep_step env) sweep_init wishes_to_delete
            in if commit_fails f then (Inl StoreUnavailable, db, removed_dirs acc)
               else (Inr (wishes_deleted acc, images_deleted acc, errors_count acc),
                     filter (\<lambda>w. wish_id w \<notin> set (pending_deletes acc)) db,
                     removed_dirs acc)))"

record cleanup_summary =
  expired_wishes_ready_for_deletion :: int
  wishes_in_grace_period :: int
  total_wishes :: int
  total_images :: int
  grace_period_minutes :: int
  cleanup_interval_minutes :: int
  summary_error :: "error option"

definition in_grace_period :: "datetime \<Rightarrow> Wish \<Rightarrow> bool" where
  "in_grace_period cutoff_time w =
     (is_deleted w \<and> (case deleted_at w of None \<Rightarrow> False | Some d \<Rightarrow> d \<ge> cutoff_time))"

definition get_cleanup_summary ::
  "settings \<Rightarrow> store_faults \<Rightarrow> datetime \<Rightarrow> Wish list \<Rightarrow> (error + cleanup_summary) \<times> Wish list" where
  "get_cleanup_summary st f now db =
     (let grace_period = timedelta_minutes (SOFT_DELETE_GRACE_PERIOD_MINUTES st);
          cutoff_time = now - grace_period
      in if query_fails f then
           (Inr \<lparr>expired_wishes_ready_for_deletion = 0, wishes_in_grace_period = 0,
                 total_wishes = 0, total_images = 0,
                 grace_period_minutes = SOFT_DELETE_GRACE_PERIOD_MINUTES st,
                 cleanup_interval_minutes = CLEANUP_INTERVAL_MINUTES st,
                 summary_error = Some StoreUnavailable\<rparr>, db)
         else
           (Inr \<lparr>expired_wishes_ready_for_deletion =
                   int (length (filter (purge_candidate cutoff_time) db)),
                 wishes_in_grace_period =
                   int (length (filter (in_grace_period cutoff_time) db)),
                 total_wishes = int (length db),
                 total_images = int (sum_list (map (\<lambda>w. length (images w)) db)),
                 grace_period_minutes = SOFT_DELETE_GRACE_PERIOD_MINUTES st,
                 cleanup_interval_minutes = CLEANUP_INTERVAL_MINUTES st,
                 summary_error = None\<rparr>, db))"

section \<open>Sequences of calls\<close>

text \<open>The row that a counted view writes: the counter is incremented, and the wish is
  tombstoned when the incremented counter has reached the limit.\<close>

definition after_view :: "datetime \<Rightarrow> Wish \<Rightarrow> Wish" where
  "after_view now w =
     (let wish1 = w\<lparr>current_views := current_views w + 1\<rparr>
      in if should_soft_delete wish1 then soft_delete now wish1 else wish1)"

text \<open>Calls of \<open>view_wish\<close> on one slug at the times \<open>ts\<close>, the store never failing.\<close>

fun view_calls ::
  "settings \<Rightarrow> string \<Rightarrow> datetime list \<Rightarrow> Wish list
     \<Rightarrow> (error + WishViewResponse) list \<times> Wish list" where
  "view_calls st s [] db = ([], db)"
| "view_calls st s (t # ts) db =
     (let (r, db') = view_wish st no_faults t s db;
          (rs, db'') = view_calls st s ts db'
      in (r # rs, db''))"

text \<open>The time \<open>t\<close> is not after \<open>expires_at\<close>, or \<open>expires_at\<close> is unset.\<close>

definition not_past :: "Wish \<Rightarrow> datetime \<Rightarrow> bool" where
  "not_past w t = (case expires_at w of None \<Rightarrow> True | Some e \<Rightarrow> t \<le> e)"

text \<open>Any call of a core operation that acts on the table of wishes, with its clock
  reading and the faults of its store calls, and what the caller gets back.\<close>

datatype call =
  View store_faults datetime string
| Delete store_faults datetime string
| Status store_faults datetime string
| Sweep store_faults sweep_env datetime

datatype outcome =
  Viewed "error + WishViewResponse"
| Deleted "error + unit"
| StatusOf "error + status_payload"
| Swept "error + int \<times> int \<times> int"

fun exec_call :: "settings \<Rightarrow> call \<Rightarrow> Wish list \<Rightarrow> outcome \<times> Wish list" where
  "exec_call st (View f now s) db = (let (r, db') = view_wish st f now s db in (Viewed r, db'))"
| "exec_call st (Delete f now s) db = (let (r, db') = delete_wish f now s db in (Deleted r, db'))"
| "exec_call st (Status f now s) db = (let (r, db') = get_wish_status f now s db in (StatusOf r, db'))"
| "exec_call st (Sweep f env now) db =
     (let (r, db', dirs) = cleanup_expired_wishes st f env now db in (Swept r, db'))"

fun run_calls :: "settings \<Rightarrow> call list \<Rightarrow> Wish list \<Rightarrow> outcome list \<times> Wish list" where
  "run_calls st [] db = ([], db)"
| "run_calls st (c # cs) db =
     (let (out, db') = exec_call st c db;
          (outs, db'') = run_calls st cs db'
      in (out # outs, db''))"

text \<open>Whether a call is a view of the slug \<open>s\<close> that returned the wish, and how many
  calls of a run are.\<close>

fun successful_view :: "string \<Rightarrow> call \<Rightarrow> outcome \<Rightarrow> bool" where
  "successful_view s (View f now s') (Viewed (Inr resp)) = (s' = s)"
| "successful_view s c out = False"

definition successful_views :: "string \<Rightarrow> call list \<Rightarrow> outcome list \<Rightarrow> nat" where
  "successful_views s cs outs = length (filter (\<lambda>(c, out). successful_view s c out) (zip cs outs))"

text \<open>The invariant of the view counter, and the views a slug has left: none when the
  slug has no row or a tombstoned one, else the distance of the counter to the limit.\<close>

definition views_bounded :: "Wish list \<Rightarrow> bool" where
  "views_bounded db =
     list_all (\<lambda>w. case max_views w of None \<Rightarrow> True | Some m \<Rightarrow> current_views w \<le> m) db"

definition view_budget :: "string \<Rightarrow> Wish list \<Rightarrow> int" where
  "view_budget s db =
     (case find (\<lambda>r. slug r = s) db of
        None \<Rightarrow> 0
      | Some w \<Rightarrow>
          if is_deleted w then 0
          else (case max_views w of None \<Rightarrow> 0 | Some m \<Rightarrow> m - current_views w))"

text \<open>The well-formed tables: the primary key and the unique slug, the bounded
  counters, and a limit on the wish of the slug under study, if it has a row.\<close>

definition table_ok :: "string \<Rightarrow> Wish list \<Rightarrow> bool" where
  "table_ok s db =
     (distinct (map wish_id db) \<and> distinct (map slug db) \<and> views_bounded db
      \<and> (case find (\<lambda>r. slug r = s) db of None \<Rightarrow> True | Some w \<Rightarrow> max_views w \<noteq> None))"

section \<open>Example inputs\<close>

definition ex_settings :: settings where
  "ex_settings = \<lparr>BASE_URL = ''http://localhost:8000'', SOFT_DELETE_GRACE_PERIOD_MINUTES = 10,
                   CLEANUP_INTERVAL_MINUTES = 30\<rparr>"

definition ex_create :: "datetime option \<Rightarrow> int option \<Rightarrow> WishCreate" where
  "ex_create e m = \<lparr>wc_title = None, wc_message = ''hi'', wc_theme = ''default'',
                     wc_expires_at = e, wc_max_views = m\<rparr>"

definition ex_wish :: "int \<Rightarrow> string \<Rightarrow> datetime option \<Rightarrow> int option \<Rightarrow> Wish" where
  "ex_wish i s e m = new_wish i s ''ip'' 0 (ex_create e m)"

definition ex_env :: "int list \<Rightarrow> int list \<Rightarrow> int list \<Rightarrow> sweep_env" where
  "ex_env ds rs fs = \<lparr>dir_exists = (\<lambda>i. i \<in> set ds), rmtree_fails = (\<lambda>i. i \<in> set rs),
                       delete_fails = (\<lambda>i. i \<in> set fs)\<rparr>"

section \<open>Lookup and commit\<close>

lemmas ex_defs = ex_settings_def ex_create_def ex_wish_def new_wish_def no_faults_def ex_env_def

lemma find_slug_commit:
  "find (\<lambda>r. slug r = s) db = Some w \<Longrightarrow> slug w' = s \<Longrightarrow> wish_id w' = wish_id w
   \<Longrightarrow> find (\<lambda>r. slug r = s) (map (\<lambda>r. if wish_id r = wish_id w' then w' else r) db) = Some w'"
  by (induction db) (auto split: if_splits)

lemma find_slug_eq: "find (\<lambda>r. slug r = s) db = Some w \<Longrightarrow> slug w = s"
  by (induction db) (auto split: if_splits)

lemma find_after_commit:
  assumes "find (\<lambda>r. slug r = s) db = Some w" "slug w' = slug w" "wish_id w' = wish_id w"
  shows "find (\<lambda>r. slug r = s) (map (\<lambda>r. if wish_id r = wish_id w then w' else r) db) = Some w'"
proof -
  have "slug w' = s" using assms(1,2) find_slug_eq by fastforce
  from find_slug_commit [OF assms(1) this assms(3)] show ?thesis using assms(3) by simp
qed

lemma after_view_keys [simp]:
  "slug (after_view t w) = slug w" "wish_id (after_view t w) = wish_id w"
  "max_views (after_view t w) = max_views w"
  "current_views (after_view t w) = current_views w + 1"
  "expires_at (after_view t w) = expires_at w"
  by (simp_all add: after_view_def soft_delete_def Let_def)

lemma soft_delete_keys [simp]:
  "slug (soft_delete t w) = slug w" "wish_id (soft_delete t w) = wish_id w"
  "max_views (soft_delete t w) = max_views w"
  "current_views (soft_delete t w) = current_views w"
  "is_deleted (soft_delete t w)" "deleted_at (soft_delete t w) = Some t"
  by (simp_all add: soft_delete_def)

lemma view_wish_success:
  assumes "fst (view_wish st f now s db) = Inr resp"
      and "find (\<lambda>r. slug r = s) db = Some w"
  shows "\<not> is_deleted w \<and> \<not> res_is_expired (check_expiry w now)
         \<and> resp = view_response st (after_view now w)
         \<and> snd (view_wish st f now s db)
               = map (\<lambda>r. if wish_id r = wish_id w then after_view now w else r) db"
  using assms
  by (auto simp: view_wish_def query_first_def commit_wish_def after_view_def Let_def
                 soft_delete_def
           split: if_splits sum.splits option.splits)

section \<open>The expiry evaluation\<close>

text \<open>
  C5. The expiry evaluation of a wish depends on \<open>expires_at\<close>, \<open>max_views\<close>,
  \<open>current_views\<close> and the current time only. The wish is expired by time iff
  \<open>expires_at\<close> is set and the current time is strictly after it, expired by views iff
  \<open>max_views\<close> is set and \<open>current_views\<close> has reached it, and expired iff one of the
  two holds.
\<close>

theorem expiry_evaluation:
  "is_expired_by_time w now = (\<exists>e. expires_at w = Some e \<and> e < now)
   \<and> is_expired_by_views w = (\<exists>m. max_views w = Some m \<and> m \<le> current_views w)
   \<and> is_expired w now = (is_expired_by_time w now \<or> is_expired_by_views w)
   \<and> (expires_at w' = expires_at w \<and> max_views w' = max_views w
        \<and> current_views w' = current_views w
      \<longrightarrow> is_expired_by_time w' now = is_expired_by_time w now
        \<and> is_expired_by_views w' = is_expired_by_views w
        \<and> is_expired w' now = is_expired w now)"
  by (auto simp: is_expired_by_time_def is_expired_by_views_def is_expired_def
           split: option.splits)

theorem expiry_evaluation_witness:
  "is_expired_by_time (ex_wish 1 ''a'' (Some 10) (Some 3)) 11
   \<and> \<not> is_expired_by_views (ex_wish 1 ''a'' (Some 10) (Some 3))
   \<and> is_expired (ex_wish 1 ''a'' (Some 10) (Some 3)) 11
   \<and> is_expired (ex_wish 2 ''b'' (Some 10) (Some 3)) 11"
proof -
  have a: "expires_at (ex_wish 1 ''a'' (Some 10) (Some 3)) = Some 10"
          "max_views (ex_wish 1 ''a'' (Some 10) (Some 3)) = Some 3"
          "current_views (ex_wish 1 ''a'' (Some 10) (Some 3)) = 0"
    by (simp_all add: ex_defs)
  have b: "expires_at (ex_wish 2 ''b'' (Some 10) (Some 3)) = Some 10"
          "max_views (ex_wish 2 ''b'' (Some 10) (Some 3)) = Some 3"
          "current_views (ex_wish 2 ''b'' (Some 10) (Some 3)) = 0"
    by (simp_all add: ex_defs)
  from expiry_evaluation [of "ex_wish 1 ''a'' (Some 10) (Some 3)" 11
         "ex_wish 2 ''b'' (Some 10) (Some 3)"]
  show ?thesis by (simp only: a b) simp
qed

text \<open>
  The expiry service, as modelled, decides as the properties of \<open>Wish\<close> in
  app/models.py do.
\<close>

lemma check_expiry_agrees:
  "res_is_expired (check_expiry w now) = is_expired w now"
  "should_soft_delete w = is_expired_by_views w"
  by (simp_all add: check_expiry_def is_expired_def is_expired_by_time_def
        is_expired_by_views_def should_soft_delete_def)

section \<open>A view of an expired wish\<close>

text \<open>
  C2. When the slug resolves to a wish that is not tombstoned and whose \<open>expires_at\<close>
  is set and strictly before the time of the call, \<open>view_wish\<close> fails with 410 Gone,
  the reason of the expiry is \<open>time\<close>, and the call persists the tombstone and nothing
  else: the row of the wish gets \<open>is_deleted = True\<close> and \<open>deleted_at = now\<close>, and
  \<open>current_views\<close> is as before.
\<close>

theorem expired_by_time_view:
  assumes found: "find (\<lambda>r. slug r = s) db = Some w"
      and live: "\<not> is_deleted w"
      and past: "expires_at w = Some e" "e < now"
      and store: "\<not> query_fails f" "\<not> commit_fails f"
  shows "fst (view_wish st f now s db) = Inl Gone
         \<and> res_expiry_type (check_expiry w now) = Some TIME
         \<and> snd (view_wish st f now s db)
             = map (\<lambda>r. if wish_id r = wish_id w
                         then w\<lparr>is_deleted := True, deleted_at := Some now\<rparr> else r) db
         \<and> find (\<lambda>r. slug r = s) (snd (view_wish st f now s db))
             = Some (w\<lparr>is_deleted := True, deleted_at := Some now\<rparr>)
         \<and> current_views (w\<lparr>is_deleted := True, deleted_at := Some now\<rparr>) = current_views w"
proof -
  let ?w' = "w\<lparr>is_deleted := True, deleted_at := Some now\<rparr>"
  have exp: "check_expiry w now = \<lparr>res_is_expired = True, res_expiry_type = Some TIME\<rparr>"
    using past by (simp add: check_expiry_def)
  have run: "view_wish st f now s db
               = (Inl Gone, map (\<lambda>r. if wish_id r = wish_id w then ?w' else r) db)"
    using found live store exp
    by (simp add: view_wish_def query_first_def commit_wish_def soft_delete_def)
  have "find (\<lambda>r. slug r = s) (map (\<lambda>r. if wish_id r = wish_id w then ?w' else r) db) = Some ?w'"
    using found by (intro find_after_commit) simp_all
  then show ?thesis using run exp by simp
qed

theorem expired_by_time_view_witness:
  "fst (view_wish ex_settings no_faults 20 ''a'' [ex_wish 1 ''a'' (Some 10) None]) = Inl Gone
   \<and> snd (view_wish ex_settings no_faults 20 ''a'' [ex_wish 1 ''a'' (Some 10) None])
       = [(ex_wish 1 ''a'' (Some 10) None)\<lparr>is_deleted := True, deleted_at := Some 20\<rparr>]"
  using expired_by_time_view [of "''a''" "[ex_wish 1 ''a'' (Some 10) None]"
          "ex_wish 1 ''a'' (Some 10) None" 10 20 no_faults ex_settings]
  by (simp add: ex_defs)

section \<open>Tombstoned wishes\<close>

text \<open>
  C3, as the code has it. When the slug resolves to a tombstoned wish, \<open>view_wish\<close>
  fails with 410 Gone and \<open>delete_wish\<close> fails with 404 Not Found, and neither changes
  the table. For a slug with no row both fail with 404 Not Found. So \<open>delete_wish\<close>
  does not tell a tombstoned wish from an absent one, and \<open>view_wish\<close> does.
\<close>

theorem tombstoned_view_gone_delete_not_found:
  assumes store: "\<not> query_fails f"
  shows "(find (\<lambda>r. slug r = s) db = Some w \<and> is_deleted w \<longrightarrow>
            view_wish st f now s db = (Inl Gone, db)
            \<and> delete_wish f now s db = (Inl NotFound, db))
         \<and> (find (\<lambda>r. slug r = s) db = None \<longrightarrow>
            view_wish st f now s db = (Inl NotFound, db)
            \<and> delete_wish f now s db = (Inl NotFound, db))"
  using store by (simp add: view_wish_def delete_wish_def query_first_def)

theorem tombstoned_view_gone_delete_not_found_witness:
  "view_wish ex_settings no_faults 5 ''a'' [soft_delete 3 (ex_wish 1 ''a'' None (Some 1))]
     = (Inl Gone, [soft_delete 3 (ex_wish 1 ''a'' None (Some 1))])
   \<and> delete_wish no_faults 5 ''a'' [soft_delete 3 (ex_wish 1 ''a'' None (Some 1))]
     = (Inl NotFound, [soft_delete 3 (ex_wish 1 ''a'' None (Some 1))])
   \<and> view_wish ex_settings no_faults 5 ''b'' [soft_delete 3 (ex_wish 1 ''a'' None (Some 1))]
     = (Inl NotFound, [soft_delete 3 (ex_wish 1 ''a'' None (Some 1))])"
  using tombstoned_view_gone_delete_not_found
          [of no_faults "''a''" "[soft_delete 3 (ex_wish 1 ''a'' None (Some 1))]"
              "soft_delete 3 (ex_wish 1 ''a'' None (Some 1))" ex_settings 5]
        tombstoned_view_gone_delete_not_found
          [of no_faults "''b''" "[soft_delete 3 (ex_wish 1 ''a'' None (Some 1))]" _ ex_settings 5]
  by (simp add: ex_defs soft_delete_def)

text \<open>
  The claim as the specification states it (a view of a tombstoned wish fails with
  Not Found, as for an absent slug) fails: the view of a tombstoned wish is Gone.
\<close>

theorem tombstoned_view_not_found_counterexample:
  "is_deleted (soft_delete 3 (ex_wish 1 ''a'' None (Some 1)))
   \<and> fst (view_wish ex_settings no_faults 5 ''a'' [soft_delete 3 (ex_wish 1 ''a'' None (Some 1))])
       = Inl Gone
   \<and> fst (view_wish ex_settings no_faults 5 ''a'' []) = Inl NotFound
   \<and> fst (view_wish ex_settings no_faults 5 ''a'' [soft_delete 3 (ex_wish 1 ''a'' None (Some 1))])
       \<noteq> Inl NotFound"
  by (simp add: view_wish_def query_first_def ex_defs soft_delete_def)

section \<open>The remaining views of a response\<close>

text \<open>
  C6. A successful \<open>view_wish\<close> of a wish whose counter is not negative returns, when
  \<open>max_views\<close> is set, \<open>remaining_views = max(0, max_views - current_views)\<close> for the
  counter after the increment of that call, which is the counter the call persists;
  when \<open>max_views\<close> is unset it returns no \<open>remaining_views\<close>.
\<close>

theorem remaining_views_of_view:
  assumes ok: "fst (view_wish st f now s db) = Inr resp"
      and found: "find (\<lambda>r. slug r = s) db = Some w"
      and nonneg: "0 \<le> current_views w"
  shows "resp_remaining_views resp
           = (case max_views w of
                None \<Rightarrow> None
              | Some m \<Rightarrow> Some (max 0 (m - (current_views w + 1))))
         \<and> (\<exists>w'. find (\<lambda>r. slug r = s) (snd (view_wish st f now s db)) = Some w'
                \<and> current_views w' = current_views w + 1
                \<and> max_views w' = max_views w
                \<and> resp_remaining_views resp = remaining_views w')"
proof -
  let ?w2 = "after_view now w"
  from view_wish_success [OF ok found]
  have fresh: "\<not> res_is_expired (check_expiry w now)"
    and resp: "resp = view_response st ?w2"
    and db': "snd (view_wish st f now s db)
                = map (\<lambda>r. if wish_id r = wish_id w then ?w2 else r) db"
    by simp_all
  have pos: "max_views w = Some m \<Longrightarrow> current_views w < m" for m
    using fresh by (auto simp: check_expiry_def split: if_splits option.splits)
  have rem: "resp_remaining_views resp = remaining_views ?w2"
    using pos nonneg resp
    by (cases "max_views w") (auto simp: view_response_def remaining_views_def)
  have "find (\<lambda>r. slug r = s) (map (\<lambda>r. if wish_id r = wish_id w then ?w2 else r) db)
               = Some ?w2"
    using found by (intro find_after_commit) simp_all
  then have f': "find (\<lambda>r. slug r = s) (snd (view_wish st f now s db)) = Some ?w2"
    using db' by simp
  have "resp_remaining_views resp
          = (case max_views w of None \<Rightarrow> None
             | Some m \<Rightarrow> Some (max 0 (m - (current_views w + 1))))"
    using rem by (simp add: remaining_views_def split: option.splits)
  then show ?thesis using f' rem by simp
qed

theorem remaining_views_of_view_witness:
  "resp_remaining_views
     (view_response ex_settings (after_view 5 (ex_wish 1 ''a'' None (Some 3)))) = Some 2
   \<and> fst (view_wish ex_settings no_faults 5 ''a'' [ex_wish 1 ''a'' None (Some 3)])
       = Inr (view_response ex_settings (after_view 5 (ex_wish 1 ''a'' None (Some 3))))"
proof -
  have ok: "fst (view_wish ex_settings no_faults 5 ''a'' [ex_wish 1 ''a'' None (Some 3)])
              = Inr (view_response ex_settings (after_view 5 (ex_wish 1 ''a'' None (Some 3))))"
    by (simp add: view_wish_def query_first_def commit_wish_def check_expiry_def
          should_soft_delete_def after_view_def Let_def ex_defs)
  have found: "find (\<lambda>r. slug r = ''a'') [ex_wish 1 ''a'' None (Some 3)]
                 = Some (ex_wish 1 ''a'' None (Some 3))"
    by (simp add: ex_defs)
  have nonneg: "0 \<le> current_views (ex_wish 1 ''a'' None (Some 3))"
    by (simp add: ex_defs)
  from remaining_views_of_view [OF ok found nonneg] ok show ?thesis
    by (simp add: ex_defs)
qed

section \<open>The status of a wish\<close>

text \<open>
  C10, as the code has it. \<open>get_wish_status\<close> leaves the table as it is, whatever the
  slug. It fails with 404 Not Found exactly when the lookup returns no row. For a
  tombstoned wish it succeeds, with \<open>exists = True\<close>, the status \<open>deleted\<close> and the
  \<open>deleted_at\<close> of the wish; for a wish that is not tombstoned it returns the other
  payload, with the status \<open>expired\<close> or \<open>active\<close>, the remaining views and
  \<open>expires_at\<close>. So the tombstone and its time can be read through the status. The
  tombstone, not its time, also shows through \<open>view_wish\<close>, which fails with 410 Gone
  for a tombstoned wish and with 404 Not Found for a slug with no row; \<open>delete_wish\<close>
  fails with 404 Not Found for both.
\<close>

theorem status_reports_tombstone:
  "snd (get_wish_status f now s db) = db
   \<and> (fst (get_wish_status f now s db) = Inl NotFound
        \<longleftrightarrow> \<not> query_fails f \<and> find (\<lambda>r. slug r = s) db = None)
   \<and> (\<not> query_fails f \<and> find (\<lambda>r. slug r = s) db = Some w \<and> is_deleted w \<longrightarrow>
        fst (get_wish_status f now s db)
          = Inr (StatusDeleted True ''deleted'' (deleted_at w)
                   ''Wish has expired or been deleted'')
        \<and> view_wish st f now s db = (Inl Gone, db)
        \<and> delete_wish f now s db = (Inl NotFound, db))
   \<and> (\<not> query_fails f \<and> find (\<lambda>r. slug r = s) db = Some w \<and> \<not> is_deleted w \<longrightarrow>
        fst (get_wish_status f now s db)
          = Inr (StatusLive True
                   (if res_is_expired (check_expiry w now) then ''expired'' else ''active'')
                   (if res_is_expired (check_expiry w now)
                    then map_option expiry_type_value (res_expiry_type (check_expiry w now))
                    else None)
                   (remaining_views w) (expires_at w)))
   \<and> (\<not> query_fails f \<and> find (\<lambda>r. slug r = s) db = None \<longrightarrow>
        view_wish st f now s db = (Inl NotFound, db)
        \<and> delete_wish f now s db = (Inl NotFound, db))
   \<and> ((\<exists>d m. fst (get_wish_status f now s db) = Inr (StatusDeleted True ''deleted'' d m))
        \<longleftrightarrow> \<not> query_fails f \<and> (\<exists>r. find (\<lambda>r. slug r = s) db = Some r \<and> is_deleted r))"
proof -
  have a: "snd (get_wish_status f now s db) = db"
    by (auto simp: get_wish_status_def query_first_def Let_def split: option.splits)
  have b: "fst (get_wish_status f now s db) = Inl NotFound
        \<longleftrightarrow> \<not> query_fails f \<and> find (\<lambda>r. slug r = s) db = None"
    by (auto simp: get_wish_status_def query_first_def Let_def split: option.splits)
  have c: "\<not> query_fails f \<and> find (\<lambda>r. slug r = s) db = Some w \<and> is_deleted w \<longrightarrow>
        fst (get_wish_status f now s db)
          = Inr (StatusDeleted True ''deleted'' (deleted_at w)
                   ''Wish has expired or been deleted'')
        \<and> view_wish st f now s db = (Inl Gone, db)
        \<and> delete_wish f now s db = (Inl NotFound, db)"
    by (simp add: get_wish_status_def view_wish_def delete_wish_def query_first_def)
  have d: "\<not> query_fails f \<and> find (\<lambda>r. slug r = s) db = Some w \<and> \<not> is_deleted w \<longrightarrow>
        fst (get_wish_status f now s db)
          = Inr (StatusLive True
                   (if res_is_expired (check_expiry w now) then ''expired'' else ''active'')
                   (if res_is_expired (check_expiry w now)
                    then map_option expiry_type_value (res_expiry_type (check_expiry w now))
                    else None)
                   (remaining_views w) (expires_at w))"
    by (simp add: get_wish_status_def query_first_def Let_def)
  have e: "\<not> query_fails f \<and> find (\<lambda>r. slug r = s) db = None \<longrightarrow>
        view_wish st f now s db = (Inl NotFound, db)
        \<and> delete_wish f now s db = (Inl NotFound, db)"
    by (simp add: view_wish_def delete_wish_def query_first_def)
  have g: "(\<exists>d m. fst (get_wish_status f now s db) = Inr (StatusDeleted True ''deleted'' d m))
        \<longleftrightarrow> \<not> query_fails f \<and> (\<exists>r. find (\<lambda>r. slug r = s) db = Some r \<and> is_deleted r)"
    by (auto simp: get_wish_status_def query_first_def Let_def split: option.splits)
  show ?thesis using a b c d e g by blast
qed

theorem status_reports_tombstone_witness:
  "get_wish_status no_faults 5 ''a''
       [soft_delete 3 (ex_wish 1 ''a'' None (Some 1)), ex_wish 2 ''b'' None (Some 1)]
     = (Inr (StatusDeleted True ''deleted'' (Some 3) ''Wish has expired or been deleted''),
        [soft_delete 3 (ex_wish 1 ''a'' None (Some 1)), ex_wish 2 ''b'' None (Some 1)])
   \<and> fst (get_wish_status no_faults 5 ''b''
       [soft_delete 3 (ex_wish 1 ''a'' None (Some 1)), ex_wish 2 ''b'' None (Some 1)])
     = Inr (StatusLive True ''active'' None (Some 1) None)
   \<and> fst (get_wish_status no_faults 5 ''c''
       [soft_delete 3 (ex_wish 1 ''a'' None (Some 1)), ex_wish 2 ''b'' None (Some 1)])
     = Inl NotFound
   \<and> fst (delete_wish no_faults 5 ''a''
       [soft_delete 3 (ex_wish 1 ''a'' None (Some 1)), ex_wish 2 ''b'' None (Some 1)])
     = Inl NotFound
   \<and> fst (delete_wish no_faults 5 ''c''
       [soft_delete 3 (ex_wish 1 ''a'' None (Some 1)), ex_wish 2 ''b'' None (Some 1)])
     = Inl NotFound"
proof -
  let ?a = "soft_delete 3 (ex_wish 1 ''a'' None (Some 1))"
  let ?b = "ex_wish 2 ''b'' None (Some 1)"
  let ?db = "[?a, ?b]"
  have q: "\<not> query_fails no_faults" by (simp add: no_faults_def)
  have fa: "find (\<lambda>r. slug r = ''a'') ?db = Some ?a" "is_deleted ?a" "deleted_at ?a = Some 3"
    by (simp_all add: ex_defs soft_delete_def)
  have fb: "find (\<lambda>r. slug r = ''b'') ?db = Some ?b" "\<not> is_deleted ?b"
    "\<not> res_is_expired (check_expiry ?b 5)" "remaining_views ?b = Some 1" "expires_at ?b = None"
    by (simp_all add: ex_defs soft_delete_def check_expiry_def remaining_views_def)
  have fc: "find (\<lambda>r. slug r = ''c'') ?db = None"
    by (simp add: ex_defs soft_delete_def)
  from status_reports_tombstone [of no_faults 5 "''a''" ?db ?a ex_settings] q fa
  have 1: "get_wish_status no_faults 5 ''a'' ?db
             = (Inr (StatusDeleted True ''deleted'' (Some 3) ''Wish has expired or been deleted''), ?db)"
    and 4: "fst (delete_wish no_faults 5 ''a'' ?db) = Inl NotFound"
    by (simp_all add: prod_eq_iff)
  from status_reports_tombstone [of no_faults 5 "''b''" ?db ?b ex_settings] q fb
  have 2: "fst (get_wish_status no_faults 5 ''b'' ?db) = Inr (StatusLive True ''active'' None (Some 1) None)"
    by simp
  from status_reports_tombstone [of no_faults 5 "''c''" ?db ?a ex_settings] q fc
  have 3: "fst (get_wish_status no_faults 5 ''c'' ?db) = Inl NotFound"
    and 5: "fst (delete_wish no_faults 5 ''c'' ?db) = Inl NotFound"
    by simp_all
  show ?thesis using 1 2 3 4 5 by blast
qed

text \<open>
  The claim as the specification states it (the tombstone cannot be observed through a
  view) fails: for a tombstoned wish and for a slug with no row, the status tells the
  two apart, and so does the view.
\<close>

theorem view_reveals_tombstone_counterexample:
  "fst (get_wish_status no_faults 5 ''a'' [soft_delete 3 (ex_wish 1 ''a'' None (Some 1))])
     = Inr (StatusDeleted True ''deleted'' (Some 3) ''Wish has expired or been deleted'')
   \<and> fst (get_wish_status no_faults 5 ''a'' []) = Inl NotFound
   \<and> fst (view_wish ex_settings no_faults 5 ''a'' [soft_delete 3 (ex_wish 1 ''a'' None (Some 1))])
     = Inl (HTTPException 410 ''Wish has expired or already been viewed'')
   \<and> fst (view_wish ex_settings no_faults 5 ''a'' [])
     = Inl (HTTPException 404 ''Wish not found'')
   \<and> fst (view_wish ex_settings no_faults 5 ''a'' [soft_delete 3 (ex_wish 1 ''a'' None (Some 1))])
     \<noteq> fst (view_wish ex_settings no_faults 5 ''a'' [])"
  by (simp add: get_wish_status_def view_wish_def query_first_def ex_defs soft_delete_def)

section \<open>Successive views of one wish\<close>

lemma view_calls_tombstoned:
  "find (\<lambda>r. slug r = s) db = Some w \<Longrightarrow> is_deleted w
   \<Longrightarrow> view_calls st s ts db = (replicate (length ts) (Inl Gone), db)"
  by (induction ts) (simp_all add: view_wish_def query_first_def no_faults_def)

lemma view_wish_counted:
  assumes "find (\<lambda>r. slug r = s) db = Some w" "\<not> is_deleted w"
      and "max_views w = Some m" "current_views w < m" "not_past w t"
  shows "view_wish st no_faults t s db
           = (Inr (view_response st (w\<lparr>current_views := current_views w + 1\<rparr>)),
              map (\<lambda>r. if wish_id r = wish_id w then after_view t w else r) db)"
  using assms
  by (auto simp: view_wish_def query_first_def no_faults_def commit_wish_def check_expiry_def
        not_past_def after_view_def Let_def soft_delete_def view_response_def
        split: option.splits)

lemma view_wish_exhausted:
  assumes "find (\<lambda>r. slug r = s) db = Some w" "\<not> is_deleted w"
      and "max_views w = Some m" "m \<le> current_views w"
  shows "view_wish st no_faults t s db
           = (Inl Gone, map (\<lambda>r. if wish_id r = wish_id w then soft_delete t w else r) db)"
  using assms
  by (auto simp: view_wish_def query_first_def no_faults_def commit_wish_def check_expiry_def
        soft_delete_def split: option.splits)

lemma view_calls_exhausted:
  assumes "find (\<lambda>r. slug r = s) db = Some w" "\<not> is_deleted w"
      and "max_views w = Some m" "m \<le> current_views w"
  shows "fst (view_calls st s ts db) = replicate (length ts) (Inl Gone)"
proof (cases ts)
  case Nil
  then show ?thesis by simp
next
  case (Cons t ts')
  let ?db1 = "map (\<lambda>r. if wish_id r = wish_id w then soft_delete t w else r) db"
  have step: "view_wish st no_faults t s db = (Inl Gone, ?db1)"
    using view_wish_exhausted [OF assms] .
  have f1: "find (\<lambda>r. slug r = s) ?db1 = Some (soft_delete t w)"
    using assms(1) by (intro find_after_commit) simp_all
  have "view_calls st s ts' ?db1 = (replicate (length ts') (Inl Gone), ?db1)"
    by (rule view_calls_tombstoned [OF f1]) (simp add: soft_delete_def)
  then show ?thesis using Cons step by simp
qed

lemma view_calls_live:
  assumes "find (\<lambda>r. slug r = s) db = Some w" "\<not> is_deleted w"
      and "max_views w = Some m" "current_views w < m"
      and "\<forall>t\<in>set ts. not_past w t"
  shows "length (fst (view_calls st s ts db)) = length ts
         \<and> (\<forall>i<length ts. fst (view_calls st s ts db) ! i
               = (if int i < m - current_views w
                  then Inr (view_response st (w\<lparr>current_views := current_views w + int i + 1\<rparr>))
                  else Inl Gone))
         \<and> (m - current_views w \<le> int (length ts) \<longrightarrow>
              find (\<lambda>r. slug r = s) (snd (view_calls st s ts db))
                = Some (w\<lparr>current_views := m, is_deleted := True,
                         deleted_at := Some (ts ! nat (m - current_views w - 1))\<rparr>))"
  using assms
proof (induction ts arbitrary: db w)
  case Nil
  then show ?case by simp
next
  case (Cons t ts)
  let ?w1 = "after_view t w"
  let ?db1 = "map (\<lambda>r. if wish_id r = wish_id w then ?w1 else r) db"
  have np: "not_past w t" using Cons.prems(5) by simp
  have step: "view_wish st no_faults t s db
                = (Inr (view_response st (w\<lparr>current_views := current_views w + 1\<rparr>)), ?db1)"
    using view_wish_counted [OF Cons.prems(1-4) np] .
  have found1: "find (\<lambda>r. slug r = s) ?db1 = Some ?w1"
    using Cons.prems(1) by (intro find_after_commit) simp_all
  show ?case
  proof (cases "current_views w + 1 < m")
    case True
    then have w1: "?w1 = w\<lparr>current_views := current_views w + 1\<rparr>"
      using Cons.prems(3) by (simp add: after_view_def should_soft_delete_def Let_def)
    have live1: "\<not> is_deleted ?w1" "max_views ?w1 = Some m" "current_views ?w1 < m"
      "\<forall>t\<in>set ts. not_past ?w1 t"
      using True Cons.prems w1 by (simp_all add: not_past_def)
    note IH = Cons.IH [OF found1 live1]
    have cv1: "current_views ?w1 = current_views w + 1" by simp
    have unf: "view_calls st s (t # ts) db
                 = (Inr (view_response st (w\<lparr>current_views := current_views w + 1\<rparr>))
                      # fst (view_calls st s ts ?db1), snd (view_calls st s ts ?db1))"
      using step by (simp add: split_beta)
    have len: "length (fst (view_calls st s (t # ts) db)) = length (t # ts)"
      using IH unf by simp
    have nth: "fst (view_calls st s (t # ts) db) ! i
               = (if int i < m - current_views w
                  then Inr (view_response st (w\<lparr>current_views := current_views w + int i + 1\<rparr>))
                  else Inl Gone)" if "i < length (t # ts)" for i
    proof (cases i)
      case 0
      then show ?thesis using unf Cons.prems(4) by simp
    next
      case (Suc j)
      then have "j < length ts" using that by simp
      with IH have "fst (view_calls st s ts ?db1) ! j
               = (if int j < m - current_views ?w1
                  then Inr (view_response st (?w1\<lparr>current_views := current_views ?w1 + int j + 1\<rparr>))
                  else Inl Gone)" by blast
      then show ?thesis using Suc unf cv1 w1 by (simp add: algebra_simps)
    qed
    have fin: "find (\<lambda>r. slug r = s) (snd (view_calls st s (t # ts) db))
                = Some (w\<lparr>current_views := m, is_deleted := True,
                         deleted_at := Some ((t # ts) ! nat (m - current_views w - 1))\<rparr>)"
      if "m - current_views w \<le> int (length (t # ts))"
    proof -
      from that have "m - current_views ?w1 \<le> int (length ts)" using cv1 by simp
      with IH have "find (\<lambda>r. slug r = s) (snd (view_calls st s ts ?db1))
                = Some (?w1\<lparr>current_views := m, is_deleted := True,
                         deleted_at := Some (ts ! nat (m - current_views ?w1 - 1))\<rparr>)" by blast
      moreover have "nat (m - current_views w - 1) = Suc (nat (m - current_views ?w1 - 1))"
        using True cv1 by simp
      ultimately show ?thesis using unf w1 by simp
    qed
    show ?thesis using len nth fin by blast
  next
    case False
    then have m: "m = current_views w + 1" using Cons.prems(4) by simp
    then have w1: "?w1 = w\<lparr>current_views := m, is_deleted := True, deleted_at := Some t\<rparr>"
      using Cons.prems(3) by (simp add: after_view_def should_soft_delete_def Let_def soft_delete_def)
    have tomb: "is_deleted ?w1" using w1 by simp
    have rest: "view_calls st s ts ?db1 = (replicate (length ts) (Inl Gone), ?db1)"
      using view_calls_tombstoned [OF found1 tomb] .
    have unf: "view_calls st s (t # ts) db
                 = (Inr (view_response st (w\<lparr>current_views := current_views w + 1\<rparr>))
                      # replicate (length ts) (Inl Gone), ?db1)"
      using step rest by simp
    have nth: "fst (view_calls st s (t # ts) db) ! i
               = (if int i < m - current_views w
                  then Inr (view_response st (w\<lparr>current_views := current_views w + int i + 1\<rparr>))
                  else Inl Gone)" if "i < length (t # ts)" for i
      using that unf m by (cases i) simp_all
    have fin: "find (\<lambda>r. slug r = s) (snd (view_calls st s (t # ts) db))
                = Some (w\<lparr>current_views := m, is_deleted := True,
                         deleted_at := Some ((t # ts) ! nat (m - current_views w - 1))\<rparr>)"
      using unf found1 w1 m by simp
    show ?thesis using unf nth fin by simp
  qed
qed

text \<open>
  C1. Let the slug resolve to a wish that is not tombstoned, has \<open>current_views = 0\<close>
  and \<open>max_views = N\<close>, and let no call be made after \<open>expires_at\<close>. Of successive
  calls of \<open>view_wish\<close> on the slug, the first \<open>N\<close> return the wish, the \<open>i\<close>-th of
  them (from 0) with \<open>remaining_views = N - 1 - i\<close>, and every later call fails with
  410 Gone. The \<open>N\<close>-th call tombstones the wish itself: after it the row has
  \<open>current_views = N\<close>, \<open>is_deleted = True\<close> and the time of that call as
  \<open>deleted_at\<close>. So for \<open>N = 1\<close> the one successful call returns
  \<open>remaining_views = 0\<close> and leaves the wish tombstoned.
\<close>

theorem exactly_max_views_successes:
  assumes found: "find (\<lambda>r. slug r = s) db = Some w"
      and fresh: "current_views w = 0" "\<not> is_deleted w"
      and limit: "max_views w = Some (int N)"
      and times: "\<forall>t\<in>set ts. not_past w t"
  shows "length (fst (view_calls st s ts db)) = length ts
         \<and> (\<forall>i<length ts. fst (view_calls st s ts db) ! i
               = (if i < N then Inr (view_response st (w\<lparr>current_views := int i + 1\<rparr>))
                  else Inl Gone))
         \<and> (\<forall>i<N. resp_remaining_views (view_response st (w\<lparr>current_views := int i + 1\<rparr>))
               = Some (int N - 1 - int i))
         \<and> (1 \<le> N \<and> N \<le> length ts \<longrightarrow>
              find (\<lambda>r. slug r = s) (snd (view_calls st s (take N ts) db))
                = Some (w\<lparr>current_views := int N, is_deleted := True,
                         deleted_at := Some (ts ! (N - 1))\<rparr>))"
proof (cases "N = 0")
  case True
  have "fst (view_calls st s ts db) = replicate (length ts) (Inl Gone)"
    using view_calls_exhausted [OF found fresh(2) limit] fresh(1) True by simp
  then show ?thesis using True by simp
next
  case False
  then have lt: "current_views w < int N" using fresh(1) by simp
  from view_calls_live [OF found fresh(2) limit lt times, of st]
  have len: "length (fst (view_calls st s ts db)) = length ts"
    and nth: "\<forall>i<length ts. fst (view_calls st s ts db) ! i
               = (if i < N then Inr (view_response st (w\<lparr>current_views := int i + 1\<rparr>))
                  else Inl Gone)"
    using fresh(1) by simp_all
  have rem: "resp_remaining_views (view_response st (w\<lparr>current_views := int i + 1\<rparr>))
               = Some (int N - 1 - int i)" if "i < N" for i
    using that limit by (simp add: view_response_def)
  have fin: "find (\<lambda>r. slug r = s) (snd (view_calls st s (take N ts) db))
                = Some (w\<lparr>current_views := int N, is_deleted := True,
                         deleted_at := Some (ts ! (N - 1))\<rparr>)"
    if "1 \<le> N" "N \<le> length ts"
  proof -
    have t': "\<forall>t\<in>set (take N ts). not_past w t"
      using times by (meson in_set_takeD)
    have l': "int N - current_views w \<le> int (length (take N ts))"
      using that fresh(1) by simp
    from view_calls_live [OF found fresh(2) limit lt t', of st] l'
    have "find (\<lambda>r. slug r = s) (snd (view_calls st s (take N ts) db))
            = Some (w\<lparr>current_views := int N, is_deleted := True,
                     deleted_at := Some (take N ts ! nat (int N - current_views w - 1))\<rparr>)"
      by blast
    moreover have "take N ts ! nat (int N - current_views w - 1) = ts ! (N - 1)"
      using that fresh(1) by (simp add: nat_diff_distrib')
    ultimately show ?thesis by simp
  qed
  show ?thesis using len nth rem fin by blast
qed

theorem exactly_max_views_successes_witness:
  "fst (view_calls ex_settings ''a'' [5, 6, 7] [ex_wish 1 ''a'' None (Some 2)]) ! 0
     = Inr (view_response ex_settings ((ex_wish 1 ''a'' None (Some 2))\<lparr>current_views := 1\<rparr>))
   \<and> fst (view_calls ex_settings ''a'' [5, 6, 7] [ex_wish 1 ''a'' None (Some 2)]) ! 1
     = Inr (view_response ex_settings ((ex_wish 1 ''a'' None (Some 2))\<lparr>current_views := 2\<rparr>))
   \<and> fst (view_calls ex_settings ''a'' [5, 6, 7] [ex_wish 1 ''a'' None (Some 2)]) ! 2 = Inl Gone
   \<and> resp_remaining_views
       (view_response ex_settings ((ex_wish 1 ''a'' None (Some 2))\<lparr>current_views := 2\<rparr>)) = Some 0
   \<and> find (\<lambda>r. slug r = ''a'')
        (snd (view_calls ex_settings ''a'' (take 2 [5, 6, 7]) [ex_wish 1 ''a'' None (Some 2)]))
     = Some ((ex_wish 1 ''a'' None (Some 2))\<lparr>current_views := 2, is_deleted := True,
                                               deleted_at := Some 6\<rparr>)"
proof -
  let ?w = "ex_wish 1 ''a'' None (Some 2)"
  have found: "find (\<lambda>r. slug r = ''a'') [?w] = Some ?w" by (simp add: ex_defs)
  have fresh: "current_views ?w = 0" "\<not> is_deleted ?w" by (simp_all add: ex_defs)
  have limit: "max_views ?w = Some (int 2)" by (simp add: ex_defs)
  have times: "\<forall>t\<in>set [5, 6, 7]. not_past ?w t" by (simp add: not_past_def ex_defs)
  note inst = exactly_max_views_successes [OF found fresh limit times, of ex_settings]
  from inst have nth: "\<forall>i<3. fst (view_calls ex_settings ''a'' [5, 6, 7] [?w]) ! i
               = (if i < 2 then Inr (view_response ex_settings (?w\<lparr>current_views := int i + 1\<rparr>))
                  else Inl Gone)" by simp
  have n0: "fst (view_calls ex_settings ''a'' [5, 6, 7] [?w]) ! 0
              = Inr (view_response ex_settings (?w\<lparr>current_views := 1\<rparr>))"
    using nth [rule_format, of 0] by simp
  have n1: "fst (view_calls ex_settings ''a'' [5, 6, 7] [?w]) ! 1
              = Inr (view_response ex_settings (?w\<lparr>current_views := 2\<rparr>))"
    using nth [rule_format, of 1] by simp
  have n2: "fst (view_calls ex_settings ''a'' [5, 6, 7] [?w]) ! 2 = Inl Gone"
    using nth [rule_format, of 2] by simp
  from inst have "\<forall>i<2. resp_remaining_views (view_response ex_settings (?w\<lparr>current_views := int i + 1\<rparr>))
               = Some (int 2 - 1 - int i)" by blast
  from this [rule_format, of 1]
  have r: "resp_remaining_views (view_response ex_settings (?w\<lparr>current_views := 2\<rparr>)) = Some 0"
    by simp
  from inst have fin: "find (\<lambda>r. slug r = ''a'')
        (snd (view_calls ex_settings ''a'' (take 2 [5, 6, 7]) [?w]))
     = Some (?w\<lparr>current_views := 2, is_deleted := True, deleted_at := Some 6\<rparr>)"
    by simp
  show ?thesis using n0 n1 n2 r fin by blast
qed

section \<open>The reclamation sweep\<close>

lemma sweep_step_fields:
  "pending_deletes (sweep_step env acc w)
     = (if delete_fails env (wish_id w) then pending_deletes acc
        else pending_deletes acc @ [wish_id w])"
  "wishes_deleted (sweep_step env acc w)
     = (if delete_fails env (wish_id w) then wishes_deleted acc else wishes_deleted acc + 1)"
  "images_deleted (sweep_step env acc w)
     = (if delete_fails env (wish_id w) then images_deleted acc
        else images_deleted acc + int (length (images w)))"
  "errors_count (sweep_step env acc w)
     = errors_count acc
       + (if dir_exists env (wish_id w) \<and> rmtree_fails env (wish_id w) then 1 else 0)
       + (if delete_fails env (wish_id w) then 1 else 0)"
  by (simp_all add: sweep_step_def sweep_files_def Let_def)

lemma sweep_fold:
  "pending_deletes (foldl (sweep_step env) acc ws)
     = pending_deletes acc @ map wish_id (filter (\<lambda>w. \<not> delete_fails env (wish_id w)) ws)
   \<and> wishes_deleted (foldl (sweep_step env) acc ws)
     = wishes_deleted acc + int (length (filter (\<lambda>w. \<not> delete_fails env (wish_id w)) ws))
   \<and> images_deleted (foldl (sweep_step env) acc ws)
     = images_deleted acc
       + int (sum_list (map (\<lambda>w. length (images w))
                          (filter (\<lambda>w. \<not> delete_fails env (wish_id w)) ws)))
   \<and> errors_count (foldl (sweep_step env) acc ws)
     = errors_count acc
       + int (length (filter (\<lambda>w. dir_exists env (wish_id w) \<and> rmtree_fails env (wish_id w)) ws))
       + int (length (filter (\<lambda>w. delete_fails env (wish_id w)) ws))"
proof (induction ws arbitrary: acc)
  case Nil
  then show ?case by simp
next
  case (Cons w ws)
  show ?case
    by (simp add: Cons.IH sweep_step_fields)
qed

lemma sweep_init_fields [simp]:
  "pending_deletes sweep_init = []" "wishes_deleted sweep_init = 0"
  "images_deleted sweep_init = 0" "errors_count sweep_init = 0"
  by (simp_all add: sweep_init_def)

lemma filter_by_key:
  assumes "distinct (map wish_id db)"
  shows "filter (\<lambda>w. wish_id w \<notin> set (map wish_id (filter P db))) db = filter (\<lambda>w. \<not> P w) db"
proof (rule filter_cong [OF refl])
  fix w assume w: "w \<in> set db"
  have inj: "inj_on wish_id (set db)" using assms by (simp add: distinct_map)
  have "wish_id w \<in> set (map wish_id (filter P db)) \<longleftrightarrow> P w"
  proof
    assume "wish_id w \<in> set (map wish_id (filter P db))"
    then obtain r where r: "r \<in> set db" "P r" "wish_id r = wish_id w" by auto
    then have "r = w" using inj w by (auto dest: inj_onD)
    then show "P w" using r by simp
  next
    assume "P w" then show "wish_id w \<in> set (map wish_id (filter P db))" using w by auto
  qed
  then show "(wish_id w \<notin> set (map wish_id (filter P db))) = (\<not> P w)" by simp
qed

lemma cleanup_rows:
  assumes "distinct (map wish_id db)" "\<not> query_fails f" "\<not> commit_fails f"
  shows "fst (snd (cleanup_expired_wishes st f env now db))
           = filter (\<lambda>w. \<not> (purge_candidate
                                (now - timedelta_minutes (SOFT_DELETE_GRACE_PERIOD_MINUTES st)) w
                              \<and> \<not> delete_fails env (wish_id w))) db"
proof -
  let ?c = "now - timedelta_minutes (SOFT_DELETE_GRACE_PERIOD_MINUTES st)"
  have "filter (\<lambda>w. \<not> delete_fails env (wish_id w)) (filter (purge_candidate ?c) db)
          = filter (\<lambda>w. purge_candidate ?c w \<and> \<not> delete_fails env (wish_id w)) db"
    by (simp add: conj_commute)
  then show ?thesis
    using assms(2,3) filter_by_key [OF assms(1), of "\<lambda>w. purge_candidate ?c w \<and> \<not> delete_fails env (wish_id w)"]
    by (simp add: cleanup_expired_wishes_def Let_def sweep_fold)
qed

text \<open>
  C7, as the code has it. When the store calls of the sweep succeed and no row
  deletion fails, \<open>cleanup_expired_wishes\<close> removes exactly the rows (each with its
  images) that have \<open>is_deleted = True\<close> and a \<open>deleted_at\<close> strictly before
  \<open>now - grace period\<close>, whether or not their files could be removed. Every other
  row, tombstoned at the cutoff or later or not tombstoned, stays as it is, in its
  place.
\<close>

theorem sweep_removes_rows_before_cutoff:
  assumes keys: "distinct (map wish_id db)"
      and store: "\<not> query_fails f" "\<not> commit_fails f"
      and rows: "\<forall>w\<in>set db. \<not> delete_fails env (wish_id w)"
  shows "fst (snd (cleanup_expired_wishes st f env now db))
           = filter (\<lambda>w. \<not> (is_deleted w
                \<and> (\<exists>d. deleted_at w = Some d
                      \<and> d < now - timedelta_minutes (SOFT_DELETE_GRACE_PERIOD_MINUTES st)))) db"
proof -
  have "filter (\<lambda>w. \<not> (purge_candidate
                                (now - timedelta_minutes (SOFT_DELETE_GRACE_PERIOD_MINUTES st)) w
                              \<and> \<not> delete_fails env (wish_id w))) db
        = filter (\<lambda>w. \<not> (is_deleted w
                \<and> (\<exists>d. deleted_at w = Some d
                      \<and> d < now - timedelta_minutes (SOFT_DELETE_GRACE_PERIOD_MINUTES st)))) db"
    using rows by (intro filter_cong) (auto simp: purge_candidate_def split: option.splits)
  then show ?thesis using cleanup_rows [OF keys store] by simp
qed

theorem sweep_removes_rows_before_cutoff_witness:
  "fst (snd (cleanup_expired_wishes ex_settings no_faults (ex_env [1] [1] []) 600000001
        [soft_delete 0 (ex_wish 1 ''a'' None (Some 1)),
         soft_delete 1 (ex_wish 2 ''b'' None (Some 1)),
         ex_wish 3 ''c'' None (Some 1)]))
   = [soft_delete 1 (ex_wish 2 ''b'' None (Some 1)), ex_wish 3 ''c'' None (Some 1)]"
  using sweep_removes_rows_before_cutoff [of
        "[soft_delete 0 (ex_wish 1 ''a'' None (Some 1)),
          soft_delete 1 (ex_wish 2 ''b'' None (Some 1)),
          ex_wish 3 ''c'' None (Some 1)]" no_faults "ex_env [1] [1] []" ex_settings 600000001]
  by (simp add: ex_defs soft_delete_def timedelta_minutes_def)

text \<open>
  The claim as the specification states it (a wish with \<open>deleted_at <= now - grace
  period\<close> is removed) fails at the cutoff itself: a wish tombstoned exactly one grace
  period before the sweep stays.
\<close>

theorem sweep_at_cutoff_counterexample:
  "is_deleted (soft_delete 0 (ex_wish 1 ''a'' None (Some 1)))
   \<and> deleted_at (soft_delete 0 (ex_wish 1 ''a'' None (Some 1)))
       = Some (600000000 - timedelta_minutes (SOFT_DELETE_GRACE_PERIOD_MINUTES ex_settings))
   \<and> cleanup_expired_wishes ex_settings no_faults (ex_env [] [] []) 600000000
        [soft_delete 0 (ex_wish 1 ''a'' None (Some 1))]
     = (Inr (0, 0, 0), [soft_delete 0 (ex_wish 1 ''a'' None (Some 1))], [])"
  by (simp add: cleanup_expired_wishes_def purge_candidate_def sweep_init_def
        timedelta_minutes_def ex_defs soft_delete_def)

text \<open>
  C8, as the code has it. Let the query for the candidates and the final commit of
  the sweep succeed. Whatever file deletions and row deletions fail among the
  candidates, \<open>cleanup_expired_wishes\<close> returns its three counters: a row is deleted
  and counted, with its images, for every candidate whose \<open>db.delete\<close> does not fail,
  also when its directory could not be removed, and \<open>errors\<close> counts one for each
  directory whose removal failed and one for each row whose deletion failed. The rows
  of the other candidates and of all other wishes stay.
\<close>

theorem sweep_per_item_fault_tolerant:
  assumes store: "\<not> query_fails f" "\<not> commit_fails f"
      and keys: "distinct (map wish_id db)"
      and cands: "cands = filter (purge_candidate
                    (now - timedelta_minutes (SOFT_DELETE_GRACE_PERIOD_MINUTES st))) db"
  shows "fst (cleanup_expired_wishes st f env now db)
           = Inr (int (length (filter (\<lambda>w. \<not> delete_fails env (wish_id w)) cands)),
                  int (sum_list (map (\<lambda>w. length (images w))
                         (filter (\<lambda>w. \<not> delete_fails env (wish_id w)) cands))),
                  int (length (filter (\<lambda>w. dir_exists env (wish_id w)
                                          \<and> rmtree_fails env (wish_id w)) cands))
                  + int (length (filter (\<lambda>w. delete_fails env (wish_id w)) cands)))
         \<and> fst (snd (cleanup_expired_wishes st f env now db))
           = filter (\<lambda>w. \<not> (w \<in> set cands \<and> \<not> delete_fails env (wish_id w))) db"
proof -
  have counters: "fst (cleanup_expired_wishes st f env now db)
           = Inr (int (length (filter (\<lambda>w. \<not> delete_fails env (wish_id w)) cands)),
                  int (sum_list (map (\<lambda>w. length (images w))
                         (filter (\<lambda>w. \<not> delete_fails env (wish_id w)) cands))),
                  int (length (filter (\<lambda>w. dir_exists env (wish_id w)
                                          \<and> rmtree_fails env (wish_id w)) cands))
                  + int (length (filter (\<lambda>w. delete_fails env (wish_id w)) cands)))"
    using store unfolding cands
    by (simp add: cleanup_expired_wishes_def Let_def sweep_fold)
  have "filter (\<lambda>w. \<not> (purge_candidate
                                (now - timedelta_minutes (SOFT_DELETE_GRACE_PERIOD_MINUTES st)) w
                              \<and> \<not> delete_fails env (wish_id w))) db
        = filter (\<lambda>w. \<not> (w \<in> set cands \<and> \<not> delete_fails env (wish_id w))) db"
    unfolding cands by (intro filter_cong) auto
  then have rows: "fst (snd (cleanup_expired_wishes st f env now db))
           = filter (\<lambda>w. \<not> (w \<in> set cands \<and> \<not> delete_fails env (wish_id w))) db"
    using cleanup_rows [OF keys store, of st env now] by simp
  show ?thesis using counters rows by blast
qed

theorem sweep_per_item_fault_tolerant_witness:
  "cleanup_expired_wishes ex_settings no_faults (ex_env [1, 2] [1] [2]) 600000005
        [soft_delete 0 (ex_wish 1 ''a'' None (Some 1)),
         soft_delete 1 (ex_wish 2 ''b'' None (Some 1)),
         soft_delete 2 (ex_wish 3 ''c'' None (Some 1)),
         ex_wish 4 ''d'' None (Some 1)]
   = (Inr (2, 0, 2),
      [soft_delete 1 (ex_wish 2 ''b'' None (Some 1)), ex_wish 4 ''d'' None (Some 1)],
      [2])"
proof -
  let ?db = "[soft_delete 0 (ex_wish 1 ''a'' None (Some 1)),
         soft_delete 1 (ex_wish 2 ''b'' None (Some 1)),
         soft_delete 2 (ex_wish 3 ''c'' None (Some 1)),
         ex_wish 4 ''d'' None (Some 1)]"
  let ?cands = "[soft_delete 0 (ex_wish 1 ''a'' None (Some 1)),
         soft_delete 1 (ex_wish 2 ''b'' None (Some 1)),
         soft_delete 2 (ex_wish 3 ''c'' None (Some 1))]"
  have store: "\<not> query_fails no_faults" "\<not> commit_fails no_faults"
    by (simp_all add: no_faults_def)
  have keys: "distinct (map wish_id ?db)" by (simp add: ex_defs)
  have cands: "?cands = filter (purge_candidate
                    (600000005 - timedelta_minutes (SOFT_DELETE_GRACE_PERIOD_MINUTES ex_settings))) ?db"
    by (simp add: purge_candidate_def timedelta_minutes_def ex_defs soft_delete_def)
  have dirs: "snd (snd (cleanup_expired_wishes ex_settings no_faults (ex_env [1, 2] [1] [2])
                600000005 ?db)) = [2]"
    by (simp add: cleanup_expired_wishes_def Let_def purge_candidate_def timedelta_minutes_def
          sweep_step_def sweep_files_def sweep_init_def ex_defs soft_delete_def)
  from sweep_per_item_fault_tolerant [OF store keys cands, of "ex_env [1, 2] [1] [2]"]
  have "fst (cleanup_expired_wishes ex_settings no_faults (ex_env [1, 2] [1] [2]) 600000005 ?db)
          = Inr (2, 0, 2)"
    and "fst (snd (cleanup_expired_wishes ex_settings no_faults (ex_env [1, 2] [1] [2])
                600000005 ?db))
          = [soft_delete 1 (ex_wish 2 ''b'' None (Some 1)), ex_wish 4 ''d'' None (Some 1)]"
    by (simp_all add: ex_defs soft_delete_def)
  then show ?thesis using dirs by (simp add: prod_eq_iff)
qed

text \<open>
  The claim as the specification states it (the sweep never raises) fails when the
  store itself fails: the final commit is outside the handlers of the loop, and its
  failure leaves the sweep.
\<close>

theorem sweep_commit_failure_counterexample:
  "fst (cleanup_expired_wishes ex_settings \<lparr>query_fails = False, commit_fails = True\<rparr>
          (ex_env [] [] []) 600000005 [soft_delete 0 (ex_wish 1 ''a'' None (Some 1))])
     = Inl StoreUnavailable"
  by (simp add: cleanup_expired_wishes_def Let_def)

section \<open>Failures of the store\<close>

text \<open>
  C9, as the code has it. A failing lookup makes \<open>view_wish\<close>, \<open>delete_wish\<close> and
  \<open>get_wish_status\<close> fail with the failure of the store, and so does a failing commit
  in \<open>view_wish\<close> and \<open>delete_wish\<close> of a wish that is not tombstoned; whenever one
  of the two fails so, the table is as before. A failing query for the candidates or a
  failing final commit makes \<open>cleanup_expired_wishes\<close> fail with the failure of the
  store, the rows as before. \<open>get_cleanup_summary\<close> never fails: when the store fails,
  it returns counters that are all zero and the failure in the field \<open>error\<close>.
\<close>

theorem store_failure_propagation:
  "(query_fails f \<longrightarrow>
      view_wish st f now s db = (Inl StoreUnavailable, db)
      \<and> delete_wish f now s db = (Inl StoreUnavailable, db)
      \<and> get_wish_status f now s db = (Inl StoreUnavailable, db))
   \<and> (\<not> query_fails f \<and> commit_fails f \<and> find (\<lambda>r. slug r = s) db = Some w \<and> \<not> is_deleted w \<longrightarrow>
      view_wish st f now s db = (Inl StoreUnavailable, db)
      \<and> delete_wish f now s db = (Inl StoreUnavailable, db))
   \<and> (fst (view_wish st f now s db) = Inl StoreUnavailable \<longrightarrow> snd (view_wish st f now s db) = db)
   \<and> (fst (delete_wish f now s db) = Inl StoreUnavailable \<longrightarrow> snd (delete_wish f now s db) = db)
   \<and> (query_fails f \<or> commit_fails f \<longrightarrow>
      fst (cleanup_expired_wishes st f env now db) = Inl StoreUnavailable
      \<and> fst (snd (cleanup_expired_wishes st f env now db)) = db)
   \<and> (\<exists>r. get_cleanup_summary st f now db = (Inr r, db))
   \<and> (query_fails f \<longrightarrow>
      fst (get_cleanup_summary st f now db)
        = Inr \<lparr>expired_wishes_ready_for_deletion = 0, wishes_in_grace_period = 0,
               total_wishes = 0, total_images = 0,
               grace_period_minutes = SOFT_DELETE_GRACE_PERIOD_MINUTES st,
               cleanup_interval_minutes = CLEANUP_INTERVAL_MINUTES st,
               summary_error = Some StoreUnavailable\<rparr>)"
proof -
  have q: "query_fails f \<longrightarrow>
      view_wish st f now s db = (Inl StoreUnavailable, db)
      \<and> delete_wish f now s db = (Inl StoreUnavailable, db)
      \<and> get_wish_status f now s db = (Inl StoreUnavailable, db)"
    by (simp add: view_wish_def delete_wish_def get_wish_status_def query_first_def)
  have c: "\<not> query_fails f \<and> commit_fails f \<and> find (\<lambda>r. slug r = s) db = Some w \<and> \<not> is_deleted w \<longrightarrow>
      view_wish st f now s db = (Inl StoreUnavailable, db)
      \<and> delete_wish f now s db = (Inl StoreUnavailable, db)"
    by (simp add: view_wish_def delete_wish_def query_first_def commit_wish_def Let_def)
  have v: "fst (view_wish st f now s db) = Inl StoreUnavailable \<longrightarrow> snd (view_wish st f now s db) = db"
    by (auto simp: view_wish_def query_first_def commit_wish_def Let_def
             split: option.splits if_splits)
  have d: "fst (delete_wish f now s db) = Inl StoreUnavailable \<longrightarrow> snd (delete_wish f now s db) = db"
    by (auto simp: delete_wish_def query_first_def commit_wish_def
             split: option.splits if_splits)
  have sw: "query_fails f \<or> commit_fails f \<longrightarrow>
      fst (cleanup_expired_wishes st f env now db) = Inl StoreUnavailable
      \<and> fst (snd (cleanup_expired_wishes st f env now db)) = db"
    by (simp add: cleanup_expired_wishes_def Let_def)
  have su: "\<exists>r. get_cleanup_summary st f now db = (Inr r, db)"
    by (simp add: get_cleanup_summary_def Let_def)
  have sq: "query_fails f \<longrightarrow>
      fst (get_cleanup_summary st f now db)
        = Inr \<lparr>expired_wishes_ready_for_deletion = 0, wishes_in_grace_period = 0,
               total_wishes = 0, total_images = 0,
               grace_period_minutes = SOFT_DELETE_GRACE_PERIOD_MINUTES st,
               cleanup_interval_minutes = CLEANUP_INTERVAL_MINUTES st,
               summary_error = Some StoreUnavailable\<rparr>"
    by (simp add: get_cleanup_summary_def Let_def)
  show ?thesis using q c v d sw su sq by blast
qed

theorem store_failure_propagation_witness:
  "view_wish ex_settings \<lparr>query_fails = True, commit_fails = False\<rparr> 5 ''a''
       [ex_wish 1 ''a'' None (Some 1)]
     = (Inl StoreUnavailable, [ex_wish 1 ''a'' None (Some 1)])
   \<and> get_wish_status \<lparr>query_fails = True, commit_fails = False\<rparr> 5 ''a''
       [ex_wish 1 ''a'' None (Some 1)]
     = (Inl StoreUnavailable, [ex_wish 1 ''a'' None (Some 1)])
   \<and> delete_wish \<lparr>query_fails = False, commit_fails = True\<rparr> 5 ''a''
       [ex_wish 1 ''a'' None (Some 1)]
     = (Inl StoreUnavailable, [ex_wish 1 ''a'' None (Some 1)])
   \<and> fst (cleanup_expired_wishes ex_settings \<lparr>query_fails = False, commit_fails = True\<rparr>
            (ex_env [] [] []) 5 [ex_wish 1 ''a'' None (Some 1)])
     = Inl StoreUnavailable"
proof -
  let ?w = "ex_wish 1 ''a'' None (Some 1)"
  have found: "find (\<lambda>r. slug r = ''a'') [?w] = Some ?w" "\<not> is_deleted ?w"
    by (simp_all add: ex_defs)
  from store_failure_propagation
         [of "\<lparr>query_fails = True, commit_fails = False\<rparr>" ex_settings 5 "''a''" "[?w]" ?w
             "ex_env [] [] []"]
  have a: "view_wish ex_settings \<lparr>query_fails = True, commit_fails = False\<rparr> 5 ''a'' [?w]
             = (Inl StoreUnavailable, [?w])"
    and b: "get_wish_status \<lparr>query_fails = True, commit_fails = False\<rparr> 5 ''a'' [?w]
             = (Inl StoreUnavailable, [?w])"
    by simp_all
  from store_failure_propagation
         [of "\<lparr>query_fails = False, commit_fails = True\<rparr>" ex_settings 5 "''a''" "[?w]" ?w
             "ex_env [] [] []"] found
  have c: "delete_wish \<lparr>query_fails = False, commit_fails = True\<rparr> 5 ''a'' [?w]
             = (Inl StoreUnavailable, [?w])"
    and d: "fst (cleanup_expired_wishes ex_settings \<lparr>query_fails = False, commit_fails = True\<rparr>
            (ex_env [] [] []) 5 [?w]) = Inl StoreUnavailable"
    by simp_all
  show ?thesis using a b c d by blast
qed

text \<open>
  The claim as the specification states it (a failure of the store makes the summary
  fail and reach the caller) fails: \<open>get_cleanup_summary\<close> handles the failure and
  returns a summary.
\<close>

theorem summary_swallows_store_failure_counterexample:
  "fst (get_cleanup_summary ex_settings \<lparr>query_fails = True, commit_fails = False\<rparr> 5
          [ex_wish 1 ''a'' None (Some 1)])
     = Inr \<lparr>expired_wishes_ready_for_deletion = 0, wishes_in_grace_period = 0,
             total_wishes = 0, total_images = 0, grace_period_minutes = 10,
             cleanup_interval_minutes = 30, summary_error = Some StoreUnavailable\<rparr>
   \<and> fst (get_cleanup_summary ex_settings \<lparr>query_fails = True, commit_fails = False\<rparr> 5
          [ex_wish 1 ''a'' None (Some 1)])
     \<noteq> Inl StoreUnavailable"
  by (simp add: get_cleanup_summary_def Let_def ex_settings_def)

section \<open>The view counter under any sequence of calls\<close>

lemma find_map_same:
  assumes "\<forall>r\<in>set db. (P (g r) \<longleftrightarrow> P r) \<and> (P r \<longrightarrow> g r = r)"
  shows "find P (map g db) = find P db"
  using assms by (induction db) auto

lemma find_filter_distinct:
  assumes "distinct (map slug db)"
  shows "find (\<lambda>r. slug r = s) (filter Q db)
           = (case find (\<lambda>r. slug r = s) db of
                None \<Rightarrow> None
              | Some w \<Rightarrow> if Q w then Some w else None)"
  using assms
proof (induction db)
  case Nil
  then show ?case by simp
next
  case (Cons x xs)
  show ?case
  proof (cases "slug x = s")
    case True
    then have "s \<notin> slug ` set xs" using Cons.prems by auto
    then have "find (\<lambda>r. slug r = s) (filter Q xs) = None"
      by (auto simp: find_None_iff)
    then show ?thesis using True by simp
  next
    case False
    then show ?thesis using Cons by simp
  qed
qed

lemma find_in_set: "find P db = Some w \<Longrightarrow> w \<in> set db \<and> P w"
  by (induction db) (auto split: if_splits)

lemma commit_keys:
  assumes "distinct (map wish_id db)" "w \<in> set db"
      and "wish_id w' = wish_id w" "slug w' = slug w"
  shows "map wish_id (map (\<lambda>r. if wish_id r = wish_id w then w' else r) db) = map wish_id db"
    and "map slug (map (\<lambda>r. if wish_id r = wish_id w then w' else r) db) = map slug db"
proof -
  have inj: "inj_on wish_id (set db)" using assms(1) by (simp add: distinct_map)
  have same: "r = w" if "r \<in> set db" "wish_id r = wish_id w" for r
    using that inj assms(2) by (auto dest: inj_onD)
  show "map wish_id (map (\<lambda>r. if wish_id r = wish_id w then w' else r) db) = map wish_id db"
    using assms(3) by (induction db) auto
  show "map slug (map (\<lambda>r. if wish_id r = wish_id w then w' else r) db) = map slug db"
    using assms(4) same by (auto simp: map_eq_conv)
qed

lemma find_commit_other:
  assumes "distinct (map wish_id db)" "w \<in> set db"
      and "slug w' = slug w" "slug w \<noteq> s"
  shows "find (\<lambda>r. slug r = s) (map (\<lambda>r. if wish_id r = wish_id w then w' else r) db)
           = find (\<lambda>r. slug r = s) db"
proof (rule find_map_same, rule ballI)
  fix r assume r: "r \<in> set db"
  have inj: "inj_on wish_id (set db)" using assms(1) by (simp add: distinct_map)
  have "r = w" if "wish_id r = wish_id w" using that inj assms(2) r by (auto dest: inj_onD)
  then show "(slug (if wish_id r = wish_id w then w' else r) = s \<longleftrightarrow> slug r = s)
             \<and> (slug r = s \<longrightarrow> (if wish_id r = wish_id w then w' else r) = r)"
    using assms(3,4) by auto
qed

lemma views_bounded_commit:
  assumes "views_bounded db"
      and "case max_views w' of None \<Rightarrow> True | Some m \<Rightarrow> current_views w' \<le> m"
  shows "views_bounded (map (\<lambda>r. if wish_id r = wish_id w then w' else r) db)"
  using assms by (auto simp: views_bounded_def list_all_iff)

lemma views_bounded_filter: "views_bounded db \<Longrightarrow> views_bounded (filter Q db)"
  by (auto simp: views_bounded_def list_all_iff)

lemma view_budget_nonneg: "views_bounded db \<Longrightarrow> 0 \<le> view_budget s db"
  by (auto simp: view_budget_def views_bounded_def list_all_iff
           split: option.splits dest!: find_in_set)

text \<open>What a call can do to the table.\<close>

lemma view_wish_cases:
  assumes "view_wish st f t s' db = (r, db')"
  shows "(db' = db \<and> (\<forall>resp. r \<noteq> Inr resp))
       \<or> (\<exists>w. find (\<lambda>r. slug r = s') db = Some w \<and> \<not> is_deleted w
              \<and> db' = map (\<lambda>r. if wish_id r = wish_id w then soft_delete t w else r) db
              \<and> (\<forall>resp. r \<noteq> Inr resp))
       \<or> (\<exists>w. find (\<lambda>r. slug r = s') db = Some w \<and> \<not> is_deleted w
              \<and> \<not> res_is_expired (check_expiry w t)
              \<and> db' = map (\<lambda>r. if wish_id r = wish_id w then after_view t w else r) db)"
  using assms
  by (auto simp: view_wish_def query_first_def commit_wish_def after_view_def Let_def
           split: sum.splits option.splits if_splits)

lemma delete_wish_cases:
  assumes "delete_wish f t s' db = (r, db')"
  shows "db' = db
       \<or> (\<exists>w. find (\<lambda>r. slug r = s') db = Some w \<and> \<not> is_deleted w
              \<and> db' = map (\<lambda>r. if wish_id r = wish_id w then soft_delete t w else r) db)"
  using assms
  by (auto simp: delete_wish_def query_first_def commit_wish_def
           split: sum.splits option.splits if_splits)

lemma cleanup_cases:
  assumes "cleanup_expired_wishes st f env now db = (r, db', dirs)"
  shows "db' = db \<or> (\<exists>Q. db' = filter Q db)"
  using assms by (auto simp: cleanup_expired_wishes_def Let_def split: if_splits)

lemma step_commit:
  assumes ok: "table_ok s db"
      and found: "find (\<lambda>r. slug r = s') db = Some w"
      and keys: "wish_id w' = wish_id w" "slug w' = slug w" "max_views w' = max_views w"
      and bounded: "case max_views w' of None \<Rightarrow> True | Some m \<Rightarrow> current_views w' \<le> m"
  shows "table_ok s (map (\<lambda>r. if wish_id r = wish_id w then w' else r) db)
         \<and> find (\<lambda>r. slug r = s) (map (\<lambda>r. if wish_id r = wish_id w then w' else r) db)
             = (if s' = s then Some w' else find (\<lambda>r. slug r = s) db)"
proof -
  let ?db' = "map (\<lambda>r. if wish_id r = wish_id w then w' else r) db"
  have w: "w \<in> set db" "slug w = s'" using find_in_set [OF found] by simp_all
  have d: "distinct (map wish_id db)" "distinct (map slug db)" "views_bounded db"
    using ok by (simp_all add: table_ok_def)
  have k: "distinct (map wish_id ?db')" "distinct (map slug ?db')"
    by (simp_all only: commit_keys [OF d(1) w(1) keys(1,2)] d(1,2))
  have b: "views_bounded ?db'" using views_bounded_commit [OF d(3) bounded] .
  have f: "find (\<lambda>r. slug r = s) ?db' = (if s' = s then Some w' else find (\<lambda>r. slug r = s) db)"
  proof (cases "s' = s")
    case True
    then show ?thesis using find_after_commit [OF found keys(2,1)] by simp
  next
    case False
    then show ?thesis using find_commit_other [OF d(1) w(1) keys(2)] w(2) by simp
  qed
  have "case find (\<lambda>r. slug r = s) ?db' of None \<Rightarrow> True | Some w \<Rightarrow> max_views w \<noteq> None"
  proof (cases "s' = s")
    case True
    then have "max_views w \<noteq> None" using ok found by (simp add: table_ok_def)
    then show ?thesis using f True keys(3) by simp
  next
    case False
    then show ?thesis using f ok by (simp add: table_ok_def)
  qed
  then show ?thesis using k b f by (simp add: table_ok_def)
qed

lemma step_tombstone:
  assumes ok: "table_ok s db"
      and found: "find (\<lambda>r. slug r = s') db = Some w"
  shows "table_ok s (map (\<lambda>r. if wish_id r = wish_id w then soft_delete t w else r) db)
         \<and> view_budget s (map (\<lambda>r. if wish_id r = wish_id w then soft_delete t w else r) db)
             \<le> view_budget s db"
proof -
  let ?db' = "map (\<lambda>r. if wish_id r = wish_id w then soft_delete t w else r) db"
  have w: "w \<in> set db" using find_in_set [OF found] by simp
  have "views_bounded db" using ok by (simp add: table_ok_def)
  then have b: "case max_views (soft_delete t w) of None \<Rightarrow> True
                | Some m \<Rightarrow> current_views (soft_delete t w) \<le> m"
    using w by (auto simp: views_bounded_def list_all_iff split: option.splits)
  have nn: "0 \<le> view_budget s db"
    using ok by (intro view_budget_nonneg) (simp add: table_ok_def)
  from step_commit [OF ok found _ _ _ b]
  have t: "table_ok s ?db'"
    and f: "find (\<lambda>r. slug r = s) ?db'
             = (if s' = s then Some (soft_delete t w) else find (\<lambda>r. slug r = s) db)"
    by simp_all
  have "view_budget s ?db' \<le> view_budget s db"
    using f nn by (cases "s' = s") (simp_all add: view_budget_def)
  then show ?thesis using t by simp
qed

lemma step_counted:
  assumes ok: "table_ok s db"
      and found: "find (\<lambda>r. slug r = s') db = Some w"
      and live: "\<not> is_deleted w" "\<not> res_is_expired (check_expiry w t)"
  shows "table_ok s (map (\<lambda>r. if wish_id r = wish_id w then after_view t w else r) db)
         \<and> view_budget s (map (\<lambda>r. if wish_id r = wish_id w then after_view t w else r) db)
             + (if s' = s then 1 else 0) \<le> view_budget s db"
proof -
  let ?db' = "map (\<lambda>r. if wish_id r = wish_id w then after_view t w else r) db"
  have lt: "current_views w < m" if "max_views w = Some m" for m
    using live(2) that by (auto simp: check_expiry_def split: if_splits option.splits)
  then have b: "case max_views (after_view t w) of None \<Rightarrow> True
                | Some m \<Rightarrow> current_views (after_view t w) \<le> m"
    by (auto split: option.splits)
  from step_commit [OF ok found _ _ _ b]
  have t: "table_ok s ?db'"
    and f: "find (\<lambda>r. slug r = s) ?db'
             = (if s' = s then Some (after_view t w) else find (\<lambda>r. slug r = s) db)"
    by simp_all
  have "view_budget s ?db' + (if s' = s then 1 else 0) \<le> view_budget s db"
  proof (cases "s' = s")
    case True
    then obtain m where m: "max_views w = Some m" using ok found by (auto simp: table_ok_def)
    have del: "is_deleted (after_view t w) \<longleftrightarrow> m \<le> current_views w + 1"
      using m live(1) by (simp add: after_view_def should_soft_delete_def Let_def soft_delete_def)
    show ?thesis using True f found live(1) m lt [OF m] del
      by (simp add: view_budget_def)
  next
    case False
    then show ?thesis using f by (simp add: view_budget_def)
  qed
  then show ?thesis using t by simp
qed

lemma step_filter:
  assumes ok: "table_ok s db"
  shows "table_ok s (filter Q db) \<and> view_budget s (filter Q db) \<le> view_budget s db"
proof -
  have d: "distinct (map wish_id db)" "distinct (map slug db)" "views_bounded db"
    using ok by (simp_all add: table_ok_def)
  have f: "find (\<lambda>r. slug r = s) (filter Q db)
           = (case find (\<lambda>r. slug r = s) db of
                None \<Rightarrow> None
              | Some w \<Rightarrow> if Q w then Some w else None)"
    using find_filter_distinct [OF d(2)] .
  have nn: "0 \<le> view_budget s db" using d(3) by (rule view_budget_nonneg)
  have t: "table_ok s (filter Q db)"
    using d ok f by (auto simp: table_ok_def distinct_map_filter views_bounded_filter
                          split: option.splits)
  have "view_budget s (filter Q db) \<le> view_budget s db"
    using f nn by (auto simp: view_budget_def split: option.splits)
  then show ?thesis using t by simp
qed

lemma exec_call_step:
  assumes ok: "table_ok s db" and ex: "exec_call st c db = (out, db')"
  shows "table_ok s db'
         \<and> view_budget s db' + (if successful_view s c out then 1 else 0) \<le> view_budget s db"
proof (cases c)
  case (View f t s')
  obtain r where r: "view_wish st f t s' db = (r, db')" "out = Viewed r"
    using ex View by (auto simp: split_beta prod_eq_iff)
  from view_wish_cases [OF r(1)] show ?thesis
  proof (elim disjE exE conjE)
    assume "db' = db" "\<forall>resp. r \<noteq> Inr resp"
    then show ?thesis using ok View r(2) by (cases r) auto
  next
    fix w assume a: "find (\<lambda>r. slug r = s') db = Some w"
      "db' = map (\<lambda>r. if wish_id r = wish_id w then soft_delete t w else r) db"
      "\<forall>resp. r \<noteq> Inr resp"
    have "\<not> successful_view s c out" using View r(2) a(3) by (cases r) auto
    then show ?thesis using step_tombstone [OF ok a(1), of t] a(2) by simp
  next
    fix w assume a: "find (\<lambda>r. slug r = s') db = Some w" "\<not> is_deleted w"
      "\<not> res_is_expired (check_expiry w t)"
      "db' = map (\<lambda>r. if wish_id r = wish_id w then after_view t w else r) db"
    have "successful_view s c out \<longrightarrow> s' = s" using View r(2) by (cases r) auto
    then show ?thesis using step_counted [OF ok a(1,2,3)] a(4) by (auto split: if_splits)
  qed
next
  case (Delete f t s')
  obtain r where r: "delete_wish f t s' db = (r, db')" "out = Deleted r"
    using ex Delete by (auto simp: split_beta prod_eq_iff)
  have ns: "\<not> successful_view s c out" using Delete by simp
  from delete_wish_cases [OF r(1)] show ?thesis
  proof (elim disjE exE conjE)
    assume "db' = db" then show ?thesis using ok ns by simp
  next
    fix w assume a: "find (\<lambda>r. slug r = s') db = Some w"
      "db' = map (\<lambda>r. if wish_id r = wish_id w then soft_delete t w else r) db"
    show ?thesis using step_tombstone [OF ok a(1), of t] a(2) ns by simp
  qed
next
  case (Status f t s')
  have "db' = db" using ex Status
    by (auto simp: get_wish_status_def query_first_def Let_def split: sum.splits option.splits if_splits)
  moreover have "\<not> successful_view s c out" using Status by simp
  ultimately show ?thesis using ok by simp
next
  case (Sweep f env t)
  obtain r dirs where r: "cleanup_expired_wishes st f env t db = (r, db', dirs)"
    using ex Sweep by (auto simp: split_beta prod_eq_iff)
  have ns: "\<not> successful_view s c out" using Sweep by simp
  from cleanup_cases [OF r] show ?thesis
  proof (elim disjE exE)
    assume "db' = db" then show ?thesis using ok ns by simp
  next
    fix Q assume "db' = filter Q db"
    then show ?thesis using step_filter [OF ok, of Q] ns by simp
  qed
qed

lemma successful_views_Cons:
  "successful_views s (c # cs) (out # outs)
     = (if successful_view s c out then 1 else 0) + successful_views s cs outs"
  by (simp add: successful_views_def)

lemma run_calls_budget:
  assumes "table_ok s db"
  shows "table_ok s (snd (run_calls st cs db))
         \<and> int (successful_views s cs (fst (run_calls st cs db)))
             + view_budget s (snd (run_calls st cs db)) \<le> view_budget s db"
  using assms
proof (induction cs arbitrary: db)
  case Nil
  then show ?case by (simp add: successful_views_def)
next
  case (Cons c cs)
  obtain out db' where ex: "exec_call st c db = (out, db')" by (cases "exec_call st c db")
  from exec_call_step [OF Cons.prems ex]
  have ok': "table_ok s db'"
    and b: "view_budget s db' + (if successful_view s c out then 1 else 0) \<le> view_budget s db"
    by simp_all
  from Cons.IH [OF ok']
  have ok'': "table_ok s (snd (run_calls st cs db'))"
    and b': "int (successful_views s cs (fst (run_calls st cs db')))
             + view_budget s (snd (run_calls st cs db')) \<le> view_budget s db'"
    by simp_all
  have unf: "run_calls st (c # cs) db
               = (out # fst (run_calls st cs db'), snd (run_calls st cs db'))"
    using ex by (simp add: split_beta)
  show ?case using ok'' b b' unfolding unf
    by (auto simp: successful_views_Cons split: if_splits)
qed

lemma exec_call_bounded:
  assumes inv: "views_bounded db"
  shows "views_bounded (snd (exec_call st c db))"
proof (cases c)
  case (View f t s')
  obtain r db' where r: "view_wish st f t s' db = (r, db')" by (cases "view_wish st f t s' db")
  have "views_bounded db'"
    using view_wish_cases [OF r]
  proof (elim disjE exE conjE)
    assume "db' = db" then show ?thesis using inv by simp
  next
    fix w assume a: "find (\<lambda>r. slug r = s') db = Some w"
      "db' = map (\<lambda>r. if wish_id r = wish_id w then soft_delete t w else r) db"
    have "w \<in> set db" using find_in_set [OF a(1)] by simp
    then have "case max_views (soft_delete t w) of None \<Rightarrow> True
                | Some m \<Rightarrow> current_views (soft_delete t w) \<le> m"
      using inv by (auto simp: views_bounded_def list_all_iff split: option.splits)
    from views_bounded_commit [OF inv this] show ?thesis using a(2) by simp
  next
    fix w assume a: "\<not> res_is_expired (check_expiry w t)"
      "db' = map (\<lambda>r. if wish_id r = wish_id w then after_view t w else r) db"
    have "current_views w < m" if "max_views w = Some m" for m
      using a(1) that by (auto simp: check_expiry_def split: if_splits option.splits)
    then have "case max_views (after_view t w) of None \<Rightarrow> True
                | Some m \<Rightarrow> current_views (after_view t w) \<le> m"
      by (auto split: option.splits)
    from views_bounded_commit [OF inv this] show ?thesis using a(2) by simp
  qed
  then show ?thesis using View r by simp
next
  case (Delete f t s')
  obtain r db' where r: "delete_wish f t s' db = (r, db')" by (cases "delete_wish f t s' db")
  have "views_bounded db'"
    using delete_wish_cases [OF r]
  proof (elim disjE exE conjE)
    assume "db' = db" then show ?thesis using inv by simp
  next
    fix w assume a: "find (\<lambda>r. slug r = s') db = Some w"
      "db' = map (\<lambda>r. if wish_id r = wish_id w then soft_delete t w else r) db"
    have "w \<in> set db" using find_in_set [OF a(1)] by simp
    then have "case max_views (soft_delete t w) of None \<Rightarrow> True
                | Some m \<Rightarrow> current_views (soft_delete t w) \<le> m"
      using inv by (auto simp: views_bounded_def list_all_iff split: option.splits)
    from views_bounded_commit [OF inv this] show ?thesis using a(2) by simp
  qed
  then show ?thesis using Delete r by simp
next
  case (Status f t s')
  have "snd (get_wish_status f t s' db) = db"
    by (auto simp: get_wish_status_def query_first_def Let_def split: sum.splits option.splits)
  then show ?thesis using Status inv by (simp add: split_beta)
next
  case (Sweep f env t)
  obtain r db' dirs where r: "cleanup_expired_wishes st f env t db = (r, db', dirs)"
    by (cases "cleanup_expired_wishes st f env t db") auto
  have "views_bounded db'"
    using cleanup_cases [OF r] inv by (auto simp: views_bounded_filter)
  then show ?thesis using Sweep r by simp
qed

lemma run_calls_bounded:
  "views_bounded db \<Longrightarrow> views_bounded (snd (run_calls st cs db))"
proof (induction cs arbitrary: db)
  case Nil
  then show ?case by simp
next
  case (Cons c cs)
  have "views_bounded (snd (exec_call st c db))" using Cons.prems by (rule exec_call_bounded)
  from Cons.IH [OF this] show ?case by (simp add: split_beta)
qed


text \<open>
  C4. The invariant: in every row with \<open>max_views\<close> set, \<open>current_views\<close> is at most
  \<open>max_views\<close>. A row added by \<open>create_wish\<close> for a valid request has it, with
  \<open>current_views = 0\<close>, and every sequence of calls of \<open>view_wish\<close>, \<open>delete_wish\<close>,
  \<open>get_wish_status\<close> and \<open>cleanup_expired_wishes\<close>, on any slugs, at any times and
  with any failures of the store and of the file store, keeps it. Moreover, in a table
  with distinct ids and distinct slugs, the views of a slug that such a sequence
  returns are at most \<open>max_views - current_views\<close> of its wish at the start: at most
  \<open>max_views\<close> for a wish that starts with \<open>current_views = 0\<close>.
\<close>

theorem view_counter_never_exceeds_limit:
  assumes inv: "views_bounded db"
  shows "views_bounded (snd (run_calls st cs db))
         \<and> (distinct (map wish_id db) \<and> distinct (map slug db)
              \<and> find (\<lambda>r. slug r = s) db = Some w \<and> max_views w = Some m
            \<longrightarrow> current_views w + int (successful_views s cs (fst (run_calls st cs db))) \<le> m)
         \<and> (valid_WishCreate d \<longrightarrow> views_bounded (db @ [new_wish i s' ip t d]))"
proof -
  have one: "views_bounded (snd (run_calls st cs db))"
    using inv by (rule run_calls_bounded)
  have two: "current_views w + int (successful_views s cs (fst (run_calls st cs db))) \<le> m"
    if keys: "distinct (map wish_id db)" "distinct (map slug db)"
      and found: "find (\<lambda>r. slug r = s) db = Some w" and limit: "max_views w = Some m"
  proof -
    have ok: "table_ok s db" using keys inv found limit by (simp add: table_ok_def)
    from run_calls_budget [OF ok, of st cs]
    have ok': "table_ok s (snd (run_calls st cs db))"
      and b: "int (successful_views s cs (fst (run_calls st cs db)))
                + view_budget s (snd (run_calls st cs db)) \<le> view_budget s db"
      by simp_all
    have "0 \<le> view_budget s (snd (run_calls st cs db))"
      using ok' by (intro view_budget_nonneg) (simp add: table_ok_def)
    moreover have "w \<in> set db" using find_in_set [OF found] by simp
    then have "current_views w \<le> m"
      using inv limit by (auto simp: views_bounded_def list_all_iff)
    then have "view_budget s db \<le> m - current_views w"
      using found limit by (simp add: view_budget_def)
    ultimately show ?thesis using b by simp
  qed
  have three: "views_bounded (db @ [new_wish i s' ip t d])" if "valid_WishCreate d"
    using that inv
    by (auto simp: views_bounded_def valid_WishCreate_def new_wish_def split: option.splits)
  show ?thesis using one two three by blast
qed

theorem view_counter_never_exceeds_limit_witness:
  "views_bounded
     (snd (run_calls ex_settings
        [View no_faults 1 ''a'', Status no_faults 2 ''a'', View no_faults 3 ''a'',
         View no_faults 4 ''a'', Delete no_faults 5 ''b'',
         Sweep no_faults (ex_env [] [] []) 700000000]
        [ex_wish 1 ''a'' None (Some 2), ex_wish 2 ''b'' None (Some 1)]))
   \<and> int (successful_views ''a''
        [View no_faults 1 ''a'', Status no_faults 2 ''a'', View no_faults 3 ''a'',
         View no_faults 4 ''a'', Delete no_faults 5 ''b'',
         Sweep no_faults (ex_env [] [] []) 700000000]
        (fst (run_calls ex_settings
           [View no_faults 1 ''a'', Status no_faults 2 ''a'', View no_faults 3 ''a'',
            View no_faults 4 ''a'', Delete no_faults 5 ''b'',
            Sweep no_faults (ex_env [] [] []) 700000000]
           [ex_wish 1 ''a'' None (Some 2), ex_wish 2 ''b'' None (Some 1)]))) \<le> 2
   \<and> views_bounded [ex_wish 1 ''a'' None (Some 2), ex_wish 2 ''b'' None (Some 1)]"
proof -
  let ?db = "[ex_wish 1 ''a'' None (Some 2), ex_wish 2 ''b'' None (Some 1)]"
  let ?cs = "[View no_faults 1 ''a'', Status no_faults 2 ''a'', View no_faults 3 ''a'',
         View no_faults 4 ''a'', Delete no_faults 5 ''b'',
         Sweep no_faults (ex_env [] [] []) 700000000]"
  have inv: "views_bounded ?db" by (simp add: views_bounded_def ex_defs)
  have pre: "distinct (map wish_id ?db) \<and> distinct (map slug ?db)
              \<and> find (\<lambda>r. slug r = ''a'') ?db = Some (ex_wish 1 ''a'' None (Some 2))
              \<and> max_views (ex_wish 1 ''a'' None (Some 2)) = Some 2"
    by (simp add: ex_defs)
  have cv: "current_views (ex_wish 1 ''a'' None (Some 2)) = 0" by (simp add: ex_defs)
  from view_counter_never_exceeds_limit [OF inv, of ex_settings ?cs "''a''"
         "ex_wish 1 ''a'' None (Some 2)" 2] pre cv
  have "views_bounded (snd (run_calls ex_settings ?cs ?db))"
    and "int (successful_views ''a'' ?cs (fst (run_calls ex_settings ?cs ?db))) \<le> 2"
    by simp_all
  then show ?thesis using inv by simp
qed

end
